theory Spec2Isabelle
  imports Main "HOL-Library.Word" "HOL-Library.Sublist"
begin

section \<open>liteMQ: the broker's connection handling and its persistence store\<close>

text \<open>
  The embedding follows \<^verbatim>\<open>server.c\<close> and \<^verbatim>\<open>persistence.c\<close>. The two parallel arrays
  \<^verbatim>\<open>fds\<close> and \<^verbatim>\<open>clients\<close> are functions from the slot index; the log directory is a map
  from file names to contents; every \<^verbatim>\<open>write\<close>, \<^verbatim>\<open>close\<close> and \<^verbatim>\<open>fopen\<close> the code
  issues is appended to a trace (\<open>sent\<close>, \<open>closed\<close>, \<open>opened\<close>), and every line the
  code prints on standard error about a client, a file or \<^verbatim>\<open>accept\<close> is appended to
  \<open>errlog\<close>. What the operating system decides (the bytes a \<^verbatim>\<open>read\<close> returns, the clock,
  whether a file can be opened for writing, whether \<^verbatim>\<open>rename\<close> succeeds) is an input of
  the model. A \<^verbatim>\<open>write\<close> is recorded with the descriptor and the bytes handed to it; the
  code does nothing on its failure but print. The lines printed on standard output and
  the call of \<^verbatim>\<open>set_non_blocking\<close>, which changes a flag of the socket only, are left out.
\<close>

subsection \<open>Constants and types\<close>

definition MAX_CLIENTS :: nat where
  "MAX_CLIENTS = 32"

definition MAX_TOPIC_LEN :: nat where
  "MAX_TOPIC_LEN = 50"

definition BUFFER_SIZE :: nat where
  "BUFFER_SIZE = 1024"

definition LOG_DIR :: string where
  "LOG_DIR = ''logs''"

definition POLLIN :: int where
  "POLLIN = 1"

datatype client_type_t = CLIENT_TYPE_UNKNOWN | CLIENT_TYPE_SUBSCRIBER

datatype persistence_mode_t = PERSIST_NONE | PERSIST_ALL | PERSIST_TIMED

text \<open>\<^verbatim>\<open>time_t\<close> and \<^verbatim>\<open>long\<close> are 64 bits wide, \<^verbatim>\<open>int\<close> is 32 bits wide.\<close>

type_synonym time_t = "64 word"
type_synonym c_int = "32 word"

record client_t =
  fd :: int
  type :: client_type_t
  topic :: string

record pollfd =
  pfd_fd :: int
  events :: int

text \<open>The lines written to standard error, one constructor for each message of the code.\<close>

datatype report =
    Malformed_SUB int string
  | Unknown_command int string
  | Malformed_PUB_topic int string
  | Malformed_PUB_no_newline int string
  | Unexpected_data int string
  | Format_error int
  | Perror string

record world =
  fds :: "nat \<Rightarrow> pollfd"
  clients :: "nat \<Rightarrow> client_t"
  files :: "string \<Rightarrow> string option"
  can_write :: "string \<Rightarrow> bool"
  can_rename :: "string \<Rightarrow> bool"
  sent :: "(int \<times> string) list"
  closed :: "int list"
  opened :: "string list"
  errlog :: "report list"

subsection \<open>C strings and the library functions the code calls\<close>

definition NUL :: char where
  "NUL = CHR 0x00"

definition newline :: char where
  "newline = CHR 0x0A"

text \<open>The contents of a character buffer read as a C string: the bytes before the first NUL.\<close>

definition cstr :: "string \<Rightarrow> string" where
  "cstr bs = takeWhile (\<lambda>c. c \<noteq> NUL) bs"

text \<open>\<^verbatim>\<open>strchr(s, c)\<close>: the offset of the first \<open>c\<close> in \<open>s\<close>, or a null pointer.\<close>

definition strchr :: "string \<Rightarrow> char \<Rightarrow> nat option" where
  "strchr s c = (if c \<in> set s then Some (length (takeWhile (\<lambda>x. x \<noteq> c) s)) else None)"

text \<open>\<^verbatim>\<open>strncmp(s, p, n) == 0\<close> for a prefix \<open>p\<close> of \<open>n\<close> bytes.\<close>

definition strncmp_eq :: "string \<Rightarrow> string \<Rightarrow> nat \<Rightarrow> bool" where
  "strncmp_eq s p n = (take n s = take n p)"

definition isspace :: "char \<Rightarrow> bool" where
  "isspace c = (c \<in> set [CHR 0x20, CHR 0x09, CHR 0x0A, CHR 0x0B, CHR 0x0C, CHR 0x0D])"

definition isdigit :: "char \<Rightarrow> bool" where
  "isdigit c = (48 \<le> (of_char c :: nat) \<and> (of_char c :: nat) \<le> 57)"

definition digit_val :: "char \<Rightarrow> nat" where
  "digit_val c = of_char c - 48"

definition digit_char :: "nat \<Rightarrow> char" where
  "digit_char d = char_of (48 + d)"

definition digits_val :: "string \<Rightarrow> nat" where
  "digits_val ds = foldl (\<lambda>a c. 10 * a + digit_val c) 0 ds"

definition LONG_MAX :: int where
  "LONG_MAX = 2 ^ 63 - 1"

definition LONG_MIN :: int where
  "LONG_MIN = - (2 ^ 63)"

text \<open>
  \<^verbatim>\<open>strtol(s, &end, 10)\<close>: skip white space, read an optional sign and the longest run of
  digits; the value saturates at the bounds of \<^verbatim>\<open>long\<close>. With no digit the value is 0
  and \<^verbatim>\<open>end\<close> is \<open>s\<close> itself. The second component is the string at \<^verbatim>\<open>end\<close>.
\<close>

definition strtol :: "string \<Rightarrow> time_t \<times> string" where
  "strtol s =
     (let s1 = dropWhile isspace s;
          neg = (s1 \<noteq> [] \<and> hd s1 = CHR ''-'');
          s2 = (if s1 \<noteq> [] \<and> (hd s1 = CHR ''-'' \<or> hd s1 = CHR ''+'') then tl s1 else s1);
          ds = takeWhile isdigit s2
      in if ds = [] then (0, s)
         else (let v = int (digits_val ds);
                   r = (if neg then max LONG_MIN (- v) else min LONG_MAX v)
               in (word_of_int r, dropWhile isdigit s2)))"

text \<open>The conversion \<^verbatim>\<open>%ld\<close> of \<^verbatim>\<open>fprintf\<close>.\<close>

fun show_nat :: "nat \<Rightarrow> string" where
  "show_nat n = (if n < 10 then [digit_char n] else show_nat (n div 10) @ [digit_char (n mod 10)])"

declare show_nat.simps [simp del]

definition show_long :: "time_t \<Rightarrow> string" where
  "show_long x = (if sint x < 0 then CHR ''-'' # show_nat (nat (- sint x)) else show_nat (nat (sint x)))"

text \<open>
  \<^verbatim>\<open>fgets(line, n + 1, fp)\<close> on the unread rest of a file: at most \<open>n\<close> bytes, stopping
  after a newline. The result is the bytes stored in \<^verbatim>\<open>line\<close> and the rest of the file.
\<close>

fun fgets :: "nat \<Rightarrow> string \<Rightarrow> string \<times> string" where
  "fgets 0 s = ([], s)"
| "fgets (Suc n) [] = ([], [])"
| "fgets (Suc n) (c # s) =
     (if c = newline then ([c], s)
      else (case fgets n s of (l, r) \<Rightarrow> (c # l, r)))"

text \<open>The file names \<^verbatim>\<open>snprintf\<close> builds in a buffer of 256 bytes.\<close>

definition log_path :: "string \<Rightarrow> string" where
  "log_path t = take 255 (LOG_DIR @ ''/'' @ t @ ''.log'')"

definition tmp_path :: "string \<Rightarrow> string" where
  "tmp_path t = take 255 (LOG_DIR @ ''/'' @ t @ ''.log.tmp'')"

subsection \<open>persistence.c\<close>

text \<open>\<^verbatim>\<open>fprintf\<close> on a stream opened for appending or for writing: the bytes go to the end.\<close>

definition file_append :: "string \<Rightarrow> string \<Rightarrow> world \<Rightarrow> world" where
  "file_append p s w =
     w\<lparr>files := (files w)(p \<mapsto> (case files w p of None \<Rightarrow> [] | Some c \<Rightarrow> c) @ s)\<rparr>"

text \<open>\<^verbatim>\<open>persist_message\<close>; \<open>now\<close> is what \<^verbatim>\<open>time(NULL)\<close> returns.\<close>

definition persist_message ::
  "string \<Rightarrow> string \<Rightarrow> persistence_mode_t \<Rightarrow> time_t \<Rightarrow> world \<Rightarrow> world" where
  "persist_message topic_arg message p_mode now w =
     (if p_mode = PERSIST_NONE then w
      else
        (let filepath = log_path topic_arg;
             w1 = w\<lparr>opened := opened w @ [filepath]\<rparr>
         in if \<not> can_write w filepath
            then w1\<lparr>errlog := errlog w1 @ [Perror ''fopen for persistence'']\<rparr>
            else if p_mode = PERSIST_TIMED
            then file_append filepath (show_long now @ '' '' @ message) w1
            else file_append filepath message w1))"

text \<open>
  The timestamp and the message of a line of a timed log, as lines 92 to 96 of
  \<^verbatim>\<open>persistence.c\<close> take them: \<^verbatim>\<open>strtol\<close>, then one space skipped if there is one.
\<close>

definition parse_entry :: "string \<Rightarrow> time_t \<times> string" where
  "parse_entry line =
     (case strtol (cstr line) of
        (msg_time, e) \<Rightarrow>
          (msg_time, if e \<noteq> [] \<and> hd e = CHR '' '' then tl e else e))"

text \<open>
  The test \<^verbatim>\<open>now - msg_time <= p_duration\<close>: a subtraction of two \<^verbatim>\<open>time_t\<close> (wrapping
  at 64 bits), compared as signed numbers with the \<^verbatim>\<open>int\<close> duration.
\<close>

definition still_valid :: "time_t \<Rightarrow> c_int \<Rightarrow> time_t \<Rightarrow> bool" where
  "still_valid now p_duration msg_time = (sint (now - msg_time) \<le> sint p_duration)"

text \<open>The body of the \<^verbatim>\<open>while\<close> loop of \<^verbatim>\<open>send_persisted_messages\<close>, for one line read.\<close>

definition replay_line ::
  "int \<Rightarrow> persistence_mode_t \<Rightarrow> c_int \<Rightarrow> time_t \<Rightarrow> string \<Rightarrow> string \<Rightarrow> world \<Rightarrow> world" where
  "replay_line sock p_mode p_duration now temp_filepath line w =
     (if p_mode = PERSIST_TIMED then
        (case parse_entry line of
           (msg_time, msg_content_start) \<Rightarrow>
             if still_valid now p_duration msg_time
             then file_append temp_filepath (show_long msg_time @ '' '' @ msg_content_start)
                    (w\<lparr>sent := sent w @ [(sock, msg_content_start)]\<rparr>)
             else w)
      else w\<lparr>sent := sent w @ [(sock, cstr line)]\<rparr>)"

text \<open>\<^verbatim>\<open>fgets(line, sizeof(line), fp_read)\<close>: a null pointer at the end of the file.\<close>

definition fgets_line :: "string \<Rightarrow> (string \<times> string) option" where
  "fgets_line s = (if s = [] then None else Some (fgets (BUFFER_SIZE - 1) s))"

lemma fgets_shorter: "s \<noteq> [] \<Longrightarrow> length (snd (fgets (Suc n) s)) < length s"
proof (induction n arbitrary: s)
  case 0
  then show ?case by (cases s) auto
next
  case (Suc n)
  then obtain c s' where s: "s = c # s'" by (cases s) auto
  show ?case
  proof (cases "s' = []")
    case True
    with s show ?thesis by auto
  next
    case False
    from Suc.IH [OF False] s show ?thesis by (auto split: prod.splits)
  qed
qed

lemma fgets_line_shorter: "fgets_line s = Some (l, r) \<Longrightarrow> length r < length s"
  using fgets_shorter [of s 1022]
  by (auto simp: fgets_line_def BUFFER_SIZE_def split: if_splits)

function replay_loop ::
  "int \<Rightarrow> persistence_mode_t \<Rightarrow> c_int \<Rightarrow> time_t \<Rightarrow> string \<Rightarrow> string \<Rightarrow> world \<Rightarrow> world" where
  "replay_loop sock p_mode p_duration now temp_filepath unread w =
     (case fgets_line unread of
        None \<Rightarrow> w
      | Some (line, rest) \<Rightarrow>
          replay_loop sock p_mode p_duration now temp_filepath rest
            (replay_line sock p_mode p_duration now temp_filepath line w))"
  by pat_completeness auto
termination
  by (relation "measure (\<lambda>(sock, p_mode, p_duration, now, temp_filepath, unread, w). length unread)")
     (auto simp: fgets_line_shorter)

declare replay_loop.simps [simp del]

text \<open>
  \<^verbatim>\<open>send_persisted_messages\<close>. A log that does not exist cannot be opened for reading;
  \<^verbatim>\<open>fopen(temp_filepath, "w")\<close> creates or empties the temporary file; \<^verbatim>\<open>rename\<close> puts the
  temporary file in the place of the log. (The two names differ for every topic of fewer
  than 246 bytes; with a longer one both are cut to the same 255 bytes.)
\<close>

definition send_persisted_messages ::
  "int \<Rightarrow> string \<Rightarrow> persistence_mode_t \<Rightarrow> c_int \<Rightarrow> time_t \<Rightarrow> world \<Rightarrow> world" where
  "send_persisted_messages sock topic_arg p_mode p_duration now w =
     (if p_mode = PERSIST_NONE then w
      else
        (let filepath = log_path topic_arg;
             temp_filepath = tmp_path topic_arg;
             w1 = w\<lparr>opened := opened w @ [filepath]\<rparr>
         in case files w filepath of
              None \<Rightarrow> w1
            | Some content \<Rightarrow>
                if p_mode = PERSIST_TIMED then
                  (let w2 = w1\<lparr>opened := opened w1 @ [temp_filepath]\<rparr>
                   in if \<not> can_write w temp_filepath
                      then w2\<lparr>errlog := errlog w2 @ [Perror ''fopen for temp persistence file'']\<rparr>
                      else
                        (let w3 = w2\<lparr>files := (files w2)(temp_filepath \<mapsto> [])\<rparr>;
                             w4 = replay_loop sock p_mode p_duration now temp_filepath content w3
                         in if can_rename w temp_filepath
                            then w4\<lparr>files := (files w4)(filepath := files w4 temp_filepath,
                                                         temp_filepath := None)\<rparr>
                            else w4\<lparr>errlog := errlog w4 @ [Perror ''rename temp file'']\<rparr>))
                else replay_loop sock p_mode p_duration now temp_filepath content w1))"

subsection \<open>server.c\<close>

text \<open>The initialisation of \<^verbatim>\<open>main\<close>: every slot free, the listening socket in slot 0.\<close>

definition init_world :: "int \<Rightarrow> world" where
  "init_world server_fd =
     \<lparr>fds = (\<lambda>i. \<lparr>pfd_fd = -1, events = 0\<rparr>)(0 := \<lparr>pfd_fd = server_fd, events = POLLIN\<rparr>),
      clients = (\<lambda>i. \<lparr>fd = -1, type = CLIENT_TYPE_UNKNOWN, topic = []\<rparr>)
                  (0 := \<lparr>fd = server_fd, type = CLIENT_TYPE_UNKNOWN, topic = []\<rparr>),
      files = Map.empty,
      can_write = (\<lambda>p. True),
      can_rename = (\<lambda>p. True),
      sent = [], closed = [], opened = [], errlog = []\<rparr>"

text \<open>
  \<^verbatim>\<open>handle_new_connection\<close>; \<open>new_socket\<close> is what \<^verbatim>\<open>accept\<close> returns. The loop looks for
  the first slot from 1 to \<^verbatim>\<open>MAX_CLIENTS\<close> whose descriptor is -1.
\<close>

definition handle_new_connection :: "int \<Rightarrow> world \<Rightarrow> world" where
  "handle_new_connection new_socket w =
     (if new_socket < 0 then w\<lparr>errlog := errlog w @ [Perror ''accept'']\<rparr>
      else
        (case find (\<lambda>i. pfd_fd (fds w i) = -1) [1..<Suc MAX_CLIENTS] of
           Some i \<Rightarrow>
             w\<lparr>fds := (fds w)(i := \<lparr>pfd_fd = new_socket, events = POLLIN\<rparr>),
               clients := (clients w)(i := (clients w i)\<lparr>fd := new_socket\<rparr>)\<rparr>
         | None \<Rightarrow> w\<lparr>closed := closed w @ [new_socket]\<rparr>))"

text \<open>
  The block the code repeats at lines 201 to 205, 231 to 235, 244 to 248 and 295 to 299:
  close the descriptor, free the slot, forget the type and the topic.
\<close>

definition drop_client :: "nat \<Rightarrow> world \<Rightarrow> world" where
  "drop_client i w =
     w\<lparr>closed := closed w @ [pfd_fd (fds w i)],
       fds := (fds w)(i := (fds w i)\<lparr>pfd_fd := -1\<rparr>),
       clients := (clients w)(i := \<lparr>fd = -1, type = CLIENT_TYPE_UNKNOWN, topic = []\<rparr>)\<rparr>"

text \<open>Lines 288 to 290: the publisher is closed; its type and topic are left as they are.\<close>

definition disconnect_publisher :: "nat \<Rightarrow> world \<Rightarrow> world" where
  "disconnect_publisher i w =
     w\<lparr>closed := closed w @ [pfd_fd (fds w i)],
       fds := (fds w)(i := (fds w i)\<lparr>pfd_fd := -1\<rparr>),
       clients := (clients w)(i := (clients w i)\<lparr>fd := -1\<rparr>)\<rparr>"

definition report_err :: "report \<Rightarrow> world \<Rightarrow> world" where
  "report_err r w = w\<lparr>errlog := errlog w @ [r]\<rparr>"

text \<open>The frame \<^verbatim>\<open>snprintf\<close> formats with \<^verbatim>\<open>"MSG %s\n%s"\<close>.\<close>

definition msg_frame :: "string \<Rightarrow> string \<Rightarrow> string" where
  "msg_frame pub_topic msg_start = ''MSG '' @ pub_topic @ [newline] @ msg_start"

text \<open>The body of the forwarding loop (lines 269 to 279) for slot \<open>j\<close>.\<close>

definition forward_one :: "string \<Rightarrow> string \<Rightarrow> nat \<Rightarrow> world \<Rightarrow> world" where
  "forward_one pub_topic msg_start j w =
     (if pfd_fd (fds w j) \<noteq> -1 \<and> type (clients w j) = CLIENT_TYPE_SUBSCRIBER
         \<and> topic (clients w j) = pub_topic
      then
        (let bytes_to_send = int (length (msg_frame pub_topic msg_start))
         in if bytes_to_send < 0 \<or> bytes_to_send \<ge> int BUFFER_SIZE
            then report_err (Format_error (fd (clients w j))) w
            else w\<lparr>sent := sent w @ [(fd (clients w j), msg_frame pub_topic msg_start)]\<rparr>)
      else w)"

text \<open>The loop \<^verbatim>\<open>for (int j = 1; j <= MAX_CLIENTS; j++)\<close>.\<close>

definition forward_to_subscribers :: "string \<Rightarrow> string \<Rightarrow> world \<Rightarrow> world" where
  "forward_to_subscribers pub_topic msg_start w =
     fold (forward_one pub_topic msg_start) [1..<Suc MAX_CLIENTS] w"

text \<open>
  \<^verbatim>\<open>handle_client_data\<close> in two parts, because the first can return early. The first part
  is the block \<^verbatim>\<open>if (client->type == CLIENT_TYPE_UNKNOWN)\<close> of lines 211 to 251.
\<close>

datatype 'a flow = Return 'a | Continue 'a

definition identify_client ::
  "nat \<Rightarrow> persistence_mode_t \<Rightarrow> c_int \<Rightarrow> time_t \<Rightarrow> string \<Rightarrow> world \<Rightarrow> world flow" where
  "identify_client i p_mode p_duration now buffer w =
     (if type (clients w i) = CLIENT_TYPE_UNKNOWN then
        if strncmp_eq buffer ''SUB '' 4 then
          (let topic_start = drop 4 buffer;
               topic_len = (case strchr topic_start newline of
                              Some p \<Rightarrow> p
                            | None \<Rightarrow> length topic_start)
           in if 0 < topic_len \<and> topic_len < MAX_TOPIC_LEN then
                (let w1 = w\<lparr>clients := (clients w)
                              (i := (clients w i)\<lparr>type := CLIENT_TYPE_SUBSCRIBER,
                                                  topic := take topic_len topic_start\<rparr>)\<rparr>
                 in Continue (send_persisted_messages (pfd_fd (fds w1 i)) (topic (clients w1 i))
                                p_mode p_duration now w1))
              else Continue (drop_client i (report_err (Malformed_SUB (pfd_fd (fds w i)) buffer) w)))
        else if strncmp_eq buffer ''PUB '' 4 then Continue w
        else Return (drop_client i (report_err (Unknown_command (pfd_fd (fds w i)) buffer) w))
      else Continue w)"

text \<open>The second part: lines 253 to 300.\<close>

definition dispatch_command ::
  "nat \<Rightarrow> persistence_mode_t \<Rightarrow> time_t \<Rightarrow> string \<Rightarrow> world \<Rightarrow> world" where
  "dispatch_command i p_mode now buffer w =
     (if strncmp_eq buffer ''PUB '' 4 then
        disconnect_publisher i
          (case strchr buffer newline of
             Some p \<Rightarrow>
               (let topic_len = int p - 4
                in if 0 < topic_len \<and> topic_len < int MAX_TOPIC_LEN then
                     (let pub_topic = take (nat topic_len) (drop 4 buffer);
                          msg_start = drop (Suc p) buffer
                      in forward_to_subscribers pub_topic msg_start
                           (persist_message pub_topic msg_start p_mode now w))
                   else report_err (Malformed_PUB_topic (pfd_fd (fds w i)) buffer) w)
           | None \<Rightarrow> report_err (Malformed_PUB_no_newline (pfd_fd (fds w i)) buffer) w)
      else if type (clients w i) = CLIENT_TYPE_SUBSCRIBER
      then drop_client i (report_err (Unexpected_data (pfd_fd (fds w i)) buffer) w)
      else w)"

text \<open>
  \<^verbatim>\<open>handle_client_data\<close> for slot \<open>i\<close>. \<open>incoming\<close> is what the socket has to deliver;
  \<^verbatim>\<open>read\<close> takes at most \<^verbatim>\<open>BUFFER_SIZE - 1\<close> bytes of it, and nothing at the end of the
  stream or on an error. The string functions see the buffer up to its first NUL.
\<close>

definition handle_client_data ::
  "nat \<Rightarrow> persistence_mode_t \<Rightarrow> c_int \<Rightarrow> time_t \<Rightarrow> string \<Rightarrow> world \<Rightarrow> world" where
  "handle_client_data i p_mode p_duration now incoming w =
     (let raw = take (BUFFER_SIZE - 1) incoming
      in if raw = [] then drop_client i w
         else
           (let buffer = cstr raw
            in case identify_client i p_mode p_duration now buffer w of
                 Return w' \<Rightarrow> w'
               | Continue w' \<Rightarrow> dispatch_command i p_mode now buffer w'))"

text \<open>
  One turn of the loop of \<^verbatim>\<open>main\<close> after \<^verbatim>\<open>poll\<close> has returned: \<open>acc\<close> is the socket
  \<^verbatim>\<open>accept\<close> returns when the listening socket is readable, \<open>rd j\<close> the bytes and the
  clock for slot \<open>j\<close> when \<^verbatim>\<open>poll\<close> reports it readable.
\<close>

definition serve_slot ::
  "persistence_mode_t \<Rightarrow> c_int \<Rightarrow> (nat \<Rightarrow> (string \<times> time_t) option) \<Rightarrow> nat \<Rightarrow> world \<Rightarrow> world" where
  "serve_slot p_mode p_duration rd j w =
     (case rd j of
        Some (incoming, now) \<Rightarrow>
          if pfd_fd (fds w j) \<noteq> -1
          then handle_client_data j p_mode p_duration now incoming w
          else w
      | None \<Rightarrow> w)"

definition main_turn ::
  "persistence_mode_t \<Rightarrow> c_int \<Rightarrow> int option \<times> (nat \<Rightarrow> (string \<times> time_t) option) \<Rightarrow> world \<Rightarrow> world" where
  "main_turn p_mode p_duration ev w =
     (case ev of
        (acc, rd) \<Rightarrow>
          fold (serve_slot p_mode p_duration rd) [1..<Suc MAX_CLIENTS]
            (case acc of None \<Rightarrow> w | Some new_socket \<Rightarrow> handle_new_connection new_socket w))"

definition main_loop ::
  "persistence_mode_t \<Rightarrow> c_int \<Rightarrow> (int option \<times> (nat \<Rightarrow> (string \<times> time_t) option)) list \<Rightarrow> world \<Rightarrow> world" where
  "main_loop p_mode p_duration evs w = fold (main_turn p_mode p_duration) evs w"

section \<open>Properties\<close>

subsection \<open>What the loops and the bookkeeping leave alone\<close>

lemma fold_keeps: "(\<And>x s. g (f x s) = g s) \<Longrightarrow> g (fold f xs s) = g s"
  by (induction xs arbitrary: s) simp_all

lemma forward_one_files [simp]: "files (forward_one t m j w) = files w"
  by (simp add: forward_one_def report_err_def Let_def)

lemma forward_one_opened [simp]: "opened (forward_one t m j w) = opened w"
  by (simp add: forward_one_def report_err_def Let_def)

lemma forward_files [simp]: "files (forward_to_subscribers t m w) = files w"
  unfolding forward_to_subscribers_def by (rule fold_keeps) simp

lemma forward_opened [simp]: "opened (forward_to_subscribers t m w) = opened w"
  unfolding forward_to_subscribers_def by (rule fold_keeps) simp

lemma persist_message_none: "persist_message t m PERSIST_NONE now w = w"
  by (simp add: persist_message_def)

lemma send_persisted_messages_none: "send_persisted_messages sock t PERSIST_NONE d now w = w"
  by (simp add: send_persisted_messages_def)

lemma drop_client_store [simp]:
  "files (drop_client i w) = files w" "opened (drop_client i w) = opened w"
  by (simp_all add: drop_client_def)

lemma disconnect_publisher_store [simp]:
  "files (disconnect_publisher i w) = files w" "opened (disconnect_publisher i w) = opened w"
  by (simp_all add: disconnect_publisher_def)

lemma report_err_store [simp]:
  "files (report_err r w) = files w" "opened (report_err r w) = opened w"
  by (simp_all add: report_err_def)

lemma handle_client_data_none:
  "files (handle_client_data i PERSIST_NONE d now inc w) = files w \<and>
   opened (handle_client_data i PERSIST_NONE d now inc w) = opened w"
  by (simp add: handle_client_data_def identify_client_def dispatch_command_def Let_def
      persist_message_none send_persisted_messages_none split: option.splits)

lemma handle_new_connection_store [simp]:
  "files (handle_new_connection s w) = files w" "opened (handle_new_connection s w) = opened w"
  by (simp_all add: handle_new_connection_def split: option.splits)

lemma serve_slot_none:
  "files (serve_slot PERSIST_NONE d rd j w) = files w \<and>
   opened (serve_slot PERSIST_NONE d rd j w) = opened w"
  by (simp add: serve_slot_def handle_client_data_none split: option.splits)

lemma main_turn_none:
  "files (main_turn PERSIST_NONE d ev w) = files w \<and>
   opened (main_turn PERSIST_NONE d ev w) = opened w"
proof -
  obtain acc rd where ev: "ev = (acc, rd)" by (cases ev)
  have "files (fold (serve_slot PERSIST_NONE d rd) xs s) = files s" for xs s
    by (rule fold_keeps) (simp add: serve_slot_none)
  moreover have "opened (fold (serve_slot PERSIST_NONE d rd) xs s) = opened s" for xs s
    by (rule fold_keeps) (simp add: serve_slot_none)
  ultimately show ?thesis
    by (simp add: main_turn_def ev split: option.splits)
qed

subsection \<open>Persistence mode none\<close>

text \<open>
  C8. Under \<^verbatim>\<open>PERSIST_NONE\<close> both \<^verbatim>\<open>persist_message\<close> and \<^verbatim>\<open>send_persisted_messages\<close>
  return at once: for every topic and message the world is left exactly as it was, so
  nothing is written and nothing is sent. Whatever connections, subscriptions and
  publishes the main loop goes through, the log directory stays as it was and no
  \<^verbatim>\<open>fopen\<close> is ever issued.
\<close>

theorem none_mode_is_noop:
  "persist_message t m PERSIST_NONE now w = w \<and>
   send_persisted_messages sock t PERSIST_NONE d now' w = w \<and>
   files (main_loop PERSIST_NONE d evs w) = files w \<and>
   opened (main_loop PERSIST_NONE d evs w) = opened w"
proof -
  have "files (fold (main_turn PERSIST_NONE d) evs w) = files w"
    by (rule fold_keeps) (simp add: main_turn_none)
  moreover have "opened (fold (main_turn PERSIST_NONE d) evs w) = opened w"
    by (rule fold_keeps) (simp add: main_turn_none)
  ultimately show ?thesis
    by (simp add: main_loop_def persist_message_none send_persisted_messages_none)
qed

subsection \<open>A full registry\<close>

lemma no_free_slot:
  "(find (\<lambda>i. pfd_fd (fds w i) = -1) [1..<Suc MAX_CLIENTS] = None) =
   (\<forall>i\<in>{1..MAX_CLIENTS}. pfd_fd (fds w i) \<noteq> -1)"
  by (auto simp: find_None_iff)

definition full_world :: world where
  "full_world = (init_world 3)\<lparr>fds := (\<lambda>i. \<lparr>pfd_fd = int i + 3, events = POLLIN\<rparr>),
                               clients := (\<lambda>i. \<lparr>fd = int i + 3, type = CLIENT_TYPE_UNKNOWN, topic = []\<rparr>)\<rparr>"

text \<open>
  C6. When none of the slots 1 to \<^verbatim>\<open>MAX_CLIENTS\<close> is free, \<^verbatim>\<open>handle_new_connection\<close> closes
  the socket it has just accepted and changes nothing else: the arrays \<^verbatim>\<open>fds\<close> and
  \<^verbatim>\<open>clients\<close> are as before, and the turn of the main loop goes on to serve the readable
  slots exactly as a turn without a new connection does.
\<close>

theorem full_registry_rejects:
  assumes "\<forall>i\<in>{1..MAX_CLIENTS}. pfd_fd (fds w i) \<noteq> -1" and "0 \<le> new_socket"
  shows "handle_new_connection new_socket w = w\<lparr>closed := closed w @ [new_socket]\<rparr> \<and>
         fds (handle_new_connection new_socket w) = fds w \<and>
         clients (handle_new_connection new_socket w) = clients w \<and>
         main_turn p_mode p_duration (Some new_socket, rd) w =
           main_turn p_mode p_duration (None, rd) (w\<lparr>closed := closed w @ [new_socket]\<rparr>)"
proof -
  from assms(1) have "find (\<lambda>i. pfd_fd (fds w i) = -1) [1..<Suc MAX_CLIENTS] = None"
    by (simp only: no_free_slot)
  with assms(2) have "handle_new_connection new_socket w = w\<lparr>closed := closed w @ [new_socket]\<rparr>"
    by (simp add: handle_new_connection_def)
  then show ?thesis
    by (simp add: main_turn_def)
qed

theorem full_registry_rejects_witness:
  "closed (handle_new_connection 40 full_world) = [40] \<and>
   fds (handle_new_connection 40 full_world) = fds full_world \<and>
   clients (handle_new_connection 40 full_world) = clients full_world"
  using full_registry_rejects [of full_world 40]
  by (simp add: full_world_def init_world_def)

subsection \<open>Replay touches neither the registry nor the descriptors\<close>

lemma file_append_frame [simp]:
  "fds (file_append p s w) = fds w" "clients (file_append p s w) = clients w"
  "closed (file_append p s w) = closed w" "sent (file_append p s w) = sent w"
  "can_write (file_append p s w) = can_write w" "can_rename (file_append p s w) = can_rename w"
  "opened (file_append p s w) = opened w" "errlog (file_append p s w) = errlog w"
  by (simp_all add: file_append_def)

lemma replay_line_frame [simp]:
  "fds (replay_line sock m d now tmp l w) = fds w"
  "clients (replay_line sock m d now tmp l w) = clients w"
  "closed (replay_line sock m d now tmp l w) = closed w"
  "can_write (replay_line sock m d now tmp l w) = can_write w"
  "can_rename (replay_line sock m d now tmp l w) = can_rename w"
  "opened (replay_line sock m d now tmp l w) = opened w"
  "errlog (replay_line sock m d now tmp l w) = errlog w"
  by (simp_all add: replay_line_def split: prod.splits)

lemma replay_loop_frame [simp]:
  "fds (replay_loop sock m d now tmp u w) = fds w"
  "clients (replay_loop sock m d now tmp u w) = clients w"
  "closed (replay_loop sock m d now tmp u w) = closed w"
  "can_write (replay_loop sock m d now tmp u w) = can_write w"
  "can_rename (replay_loop sock m d now tmp u w) = can_rename w"
  "opened (replay_loop sock m d now tmp u w) = opened w"
  "errlog (replay_loop sock m d now tmp u w) = errlog w"
proof (induction sock m d now tmp u w rule: replay_loop.induct)
  case (1 sock m d now tmp u w)
  {
    case 1
    show ?case
      using "1.IH"(1) by (subst replay_loop.simps) (simp split: option.splits prod.splits)
  next
    case 2
    show ?case
      using "1.IH"(2) by (subst replay_loop.simps) (simp split: option.splits prod.splits)
  next
    case 3
    show ?case
      using "1.IH"(3) by (subst replay_loop.simps) (simp split: option.splits prod.splits)
  next
    case 4
    show ?case
      using "1.IH"(4) by (subst replay_loop.simps) (simp split: option.splits prod.splits)
  next
    case 5
    show ?case
      using "1.IH"(5) by (subst replay_loop.simps) (simp split: option.splits prod.splits)
  next
    case 6
    show ?case
      using "1.IH"(6) by (subst replay_loop.simps) (simp split: option.splits prod.splits)
  next
    case 7
    show ?case
      using "1.IH"(7) by (subst replay_loop.simps) (simp split: option.splits prod.splits)
  }
qed

lemma send_persisted_messages_frame [simp]:
  "fds (send_persisted_messages sock t m d now w) = fds w"
  "clients (send_persisted_messages sock t m d now w) = clients w"
  "closed (send_persisted_messages sock t m d now w) = closed w"
  "can_write (send_persisted_messages sock t m d now w) = can_write w"
  "can_rename (send_persisted_messages sock t m d now w) = can_rename w"
  by (simp_all add: send_persisted_messages_def Let_def split: option.splits)

subsection \<open>The forwarding loop\<close>

text \<open>The slots a publish to \<open>t\<close> is forwarded to, in the order of the loop.\<close>

definition subscribers_of :: "world \<Rightarrow> string \<Rightarrow> nat list" where
  "subscribers_of w t =
     filter (\<lambda>j. pfd_fd (fds w j) \<noteq> -1 \<and> type (clients w j) = CLIENT_TYPE_SUBSCRIBER
                  \<and> topic (clients w j) = t) [1..<Suc MAX_CLIENTS]"

lemma forward_one_frame [simp]:
  "fds (forward_one t m j w) = fds w" "clients (forward_one t m j w) = clients w"
  "closed (forward_one t m j w) = closed w"
  "can_write (forward_one t m j w) = can_write w" "can_rename (forward_one t m j w) = can_rename w"
  by (simp_all add: forward_one_def report_err_def Let_def)

lemma fold_forward_one:
  "fold (forward_one t m) xs w =
     (let hit = filter (\<lambda>j. pfd_fd (fds w j) \<noteq> -1 \<and> type (clients w j) = CLIENT_TYPE_SUBSCRIBER
                              \<and> topic (clients w j) = t) xs
      in if int (length (msg_frame t m)) \<ge> int BUFFER_SIZE
         then w\<lparr>errlog := errlog w @ map (\<lambda>j. Format_error (fd (clients w j))) hit\<rparr>
         else w\<lparr>sent := sent w @ map (\<lambda>j. (fd (clients w j), msg_frame t m)) hit\<rparr>)"
proof (induction xs arbitrary: w)
  case Nil
  then show ?case by simp
next
  case (Cons j xs)
  show ?case
    by (simp add: Cons.IH Let_def) (simp add: forward_one_def report_err_def Let_def)
qed

lemma forward_to_subscribers_eq:
  "forward_to_subscribers t m w =
     (if int (length (msg_frame t m)) \<ge> int BUFFER_SIZE
      then w\<lparr>errlog := errlog w @ map (\<lambda>j. Format_error (fd (clients w j))) (subscribers_of w t)\<rparr>
      else w\<lparr>sent := sent w @ map (\<lambda>j. (fd (clients w j), msg_frame t m)) (subscribers_of w t)\<rparr>)"
  by (simp add: forward_to_subscribers_def fold_forward_one subscribers_of_def Let_def)

lemma forward_to_subscribers_frame [simp]:
  "fds (forward_to_subscribers t m w) = fds w" "clients (forward_to_subscribers t m w) = clients w"
  "closed (forward_to_subscribers t m w) = closed w"
  "can_write (forward_to_subscribers t m w) = can_write w"
  "can_rename (forward_to_subscribers t m w) = can_rename w"
  by (simp_all add: forward_to_subscribers_eq)

subsection \<open>A subscription does not survive the read that makes it\<close>

text \<open>
  After the block for an unknown client has made the client a subscriber, control goes
  on to line 253; the buffer does not begin with \<^verbatim>\<open>PUB\<close>, the type is now
  \<^verbatim>\<open>CLIENT_TYPE_SUBSCRIBER\<close>, and the branch of line 291 closes the connection as
  one that sent unexpected data. So every \<^verbatim>\<open>SUB\<close> of an unknown client, well formed or
  not, ends with the slot free.
\<close>

lemma sub_ends_closed:
  assumes "type (clients w i) = CLIENT_TYPE_UNKNOWN"
      and "take 4 (cstr (take (BUFFER_SIZE - 1) incoming)) = ''SUB ''"
  shows "pfd_fd (fds (handle_client_data i p_mode p_duration now incoming w) i) = -1 \<and>
         clients (handle_client_data i p_mode p_duration now incoming w) i =
           \<lparr>fd = -1, type = CLIENT_TYPE_UNKNOWN, topic = []\<rparr> \<and>
         closed (handle_client_data i p_mode p_duration now incoming w) = closed w @ [pfd_fd (fds w i)]"
proof -
  let ?raw = "take (BUFFER_SIZE - 1) incoming"
  from assms(2) have raw: "?raw \<noteq> []" by (auto simp: cstr_def)
  have sub: "strncmp_eq (cstr ?raw) ''SUB '' 4" and pub: "\<not> strncmp_eq (cstr ?raw) ''PUB '' 4"
    using assms(2) by (simp_all add: strncmp_eq_def)
  show ?thesis
    using raw sub pub assms(1)
    by (simp add: handle_client_data_def identify_client_def dispatch_command_def Let_def
        drop_client_def report_err_def)
qed

subsection \<open>Single steps of the registry, for the evaluations below\<close>

lemma slots_Cons: "[1..<Suc MAX_CLIENTS] = 1 # [Suc 1..<Suc MAX_CLIENTS]"
  by (rule upt_conv_Cons) (simp add: MAX_CLIENTS_def)

lemma accept_into_slot_1:
  assumes "pfd_fd (fds w 1) = -1" and "0 \<le> new_socket"
  shows "handle_new_connection new_socket w =
           w\<lparr>fds := (fds w)(1 := \<lparr>pfd_fd = new_socket, events = POLLIN\<rparr>),
             clients := (clients w)(1 := (clients w 1)\<lparr>fd := new_socket\<rparr>)\<rparr>"
  using assms unfolding handle_new_connection_def slots_Cons by simp

lemma serve_nothing: "\<forall>j\<in>set xs. rd j = None \<Longrightarrow> fold (serve_slot m d rd) xs w = w"
  by (induction xs arbitrary: w) (simp_all add: serve_slot_def)

definition no_data :: "nat \<Rightarrow> (string \<times> time_t) option" where
  "no_data = (\<lambda>j. None)"

lemma main_turn_idle:
  "main_turn m d (Some new_socket, no_data) w = handle_new_connection new_socket w"
  by (simp add: main_turn_def serve_nothing no_data_def)

lemma main_turn_slot_1:
  "main_turn m d (None, no_data(Suc 0 \<mapsto> x)) w = serve_slot m d (no_data(Suc 0 \<mapsto> x)) (Suc 0) w"
  unfolding main_turn_def slots_Cons by (simp add: serve_nothing no_data_def)

text \<open>
  C1, evaluated. A client is accepted on descriptor 5 into slot 1 and sends
  \<^verbatim>\<open>SUB weather\<close> and a newline. When \<^verbatim>\<open>handle_client_data\<close> returns, the log has been
  opened for the replay, and then the connection has been closed: the slot is free, its
  type is \<^verbatim>\<open>CLIENT_TYPE_UNKNOWN\<close> again and its topic is empty.
\<close>

theorem sub_weather_is_closed:
  "pfd_fd (fds (handle_client_data 1 PERSIST_ALL 0 1700000000 ''SUB weather\<newline>''
                  (handle_new_connection 5 (init_world 3))) 1) = -1 \<and>
   clients (handle_client_data 1 PERSIST_ALL 0 1700000000 ''SUB weather\<newline>''
              (handle_new_connection 5 (init_world 3))) 1 =
     \<lparr>fd = -1, type = CLIENT_TYPE_UNKNOWN, topic = []\<rparr> \<and>
   opened (handle_client_data 1 PERSIST_ALL 0 1700000000 ''SUB weather\<newline>''
              (handle_new_connection 5 (init_world 3))) = [''logs/weather.log''] \<and>
   closed (handle_client_data 1 PERSIST_ALL 0 1700000000 ''SUB weather\<newline>''
              (handle_new_connection 5 (init_world 3))) = [5] \<and>
   errlog (handle_client_data 1 PERSIST_ALL 0 1700000000 ''SUB weather\<newline>''
              (handle_new_connection 5 (init_world 3))) = [Unexpected_data 5 ''SUB weather\<newline>'']"
proof -
  have w1: "handle_new_connection 5 (init_world 3) =
      (init_world 3)\<lparr>fds := (fds (init_world 3))(1 := \<lparr>pfd_fd = 5, events = POLLIN\<rparr>),
        clients := (clients (init_world 3))(1 := (clients (init_world 3) 1)\<lparr>fd := 5\<rparr>)\<rparr>"
    by (rule accept_into_slot_1) (simp_all add: init_world_def)
  show ?thesis
    unfolding w1
    by (simp add: handle_client_data_def init_world_def BUFFER_SIZE_def
      cstr_def NUL_def identify_client_def dispatch_command_def strncmp_eq_def
      strchr_def newline_def MAX_TOPIC_LEN_def send_persisted_messages_def log_path_def LOG_DIR_def
      tmp_path_def drop_client_def report_err_def)
qed

text \<open>
  C2, evaluated on the scenario of the specification. A subscriber is accepted on
  descriptor 5 and sends \<^verbatim>\<open>SUB weather\<close>; then a publisher is accepted on descriptor 6 and
  sends \<^verbatim>\<open>PUB weather\<close>, a newline and \<^verbatim>\<open>sunny\<close>. After the four turns of the main loop no
  \<^verbatim>\<open>write\<close> has been issued at all: the subscriber was closed in the turn of its
  \<^verbatim>\<open>SUB\<close>, so the forwarding loop of the publish finds no subscriber.
\<close>

theorem subscribe_then_publish_sends_nothing:
  "sent (main_loop PERSIST_NONE 0
           [(Some 5, no_data),
            (None, no_data(1 \<mapsto> (''SUB weather'', 1700000000))),
            (Some 6, no_data),
            (None, no_data(1 \<mapsto> (''PUB weather\<newline>sunny'', 1700000001)))]
           (init_world 3)) = [] \<and>
   closed (main_loop PERSIST_NONE 0
           [(Some 5, no_data),
            (None, no_data(1 \<mapsto> (''SUB weather'', 1700000000))),
            (Some 6, no_data),
            (None, no_data(1 \<mapsto> (''PUB weather\<newline>sunny'', 1700000001)))]
           (init_world 3)) = [5, 6]"
proof -
  let ?sub = "(None, no_data(1 \<mapsto> (''SUB weather'', 1700000000)))"
  let ?pub = "(None, no_data(1 \<mapsto> (''PUB weather\<newline>sunny'', 1700000001)))"
  define w1 where "w1 = main_turn PERSIST_NONE 0 (Some 5, no_data) (init_world 3)"
  define w2 where "w2 = main_turn PERSIST_NONE 0 ?sub w1"
  define w3 where "w3 = main_turn PERSIST_NONE 0 (Some 6, no_data) w2"
  define w4 where "w4 = main_turn PERSIST_NONE 0 ?pub w3"
  have "pfd_fd (fds (init_world 3) 1) = -1"
    by (simp add: init_world_def)
  from accept_into_slot_1 [OF this, of 5]
  have 1: "type (clients w1 1) = CLIENT_TYPE_UNKNOWN \<and> pfd_fd (fds w1 1) = 5 \<and>
           sent w1 = [] \<and> closed w1 = [] \<and>
           (\<forall>j. type (clients w1 j) = CLIENT_TYPE_UNKNOWN)"
    by (simp add: w1_def main_turn_idle init_world_def)
  have w2: "w2 = handle_client_data 1 PERSIST_NONE 0 1700000000 ''SUB weather'' w1"
    using 1 by (simp add: w2_def main_turn_slot_1 serve_slot_def)
  have sub: "take 4 (cstr (take (BUFFER_SIZE - 1) ''SUB weather'')) = ''SUB ''"
    by (simp add: BUFFER_SIZE_def cstr_def NUL_def)
  have fd2: "pfd_fd (fds w2 1) = -1 \<and> closed w2 = [5]"
    using 1 sub_ends_closed [of w1 1 "''SUB weather''" PERSIST_NONE 0 1700000000, OF _ sub]
    by (simp add: w2)
  have 2: "sent w2 = [] \<and> (\<forall>j. type (clients w2 j) = CLIENT_TYPE_UNKNOWN)"
    using 1 sub
    by (simp add: w2 handle_client_data_def identify_client_def dispatch_command_def
        strncmp_eq_def send_persisted_messages_def drop_client_def report_err_def Let_def
        split: option.splits)
  from fd2 accept_into_slot_1 [of w2 6]
  have 3: "pfd_fd (fds w3 1) = 6 \<and> sent w3 = [] \<and> closed w3 = [5] \<and>
           (\<forall>j. type (clients w3 j) = CLIENT_TYPE_UNKNOWN)"
    using 2 by (simp add: w3_def main_turn_idle)
  have w4: "w4 = handle_client_data 1 PERSIST_NONE 0 1700000001 ''PUB weather\<newline>sunny'' w3"
    using 3 by (simp add: w4_def main_turn_slot_1 serve_slot_def)
  have none: "subscribers_of w3 t = []" for t
    using 3 by (simp add: subscribers_of_def)
  have 4: "sent w4 = [] \<and> closed w4 = [5, 6]"
    using 3
    by (simp add: w4 handle_client_data_def identify_client_def dispatch_command_def
        BUFFER_SIZE_def cstr_def NUL_def strncmp_eq_def strchr_def newline_def MAX_TOPIC_LEN_def
        persist_message_def forward_to_subscribers_eq none disconnect_publisher_def Let_def)
  have "main_loop PERSIST_NONE 0 [(Some 5, no_data), ?sub, (Some 6, no_data), ?pub] (init_world 3) = w4"
    by (simp add: main_loop_def w4_def w3_def w2_def w1_def)
  with 4 show ?thesis by simp
qed

subsection \<open>Publishing\<close>

lemma strchr_first: "c \<notin> set p \<Longrightarrow> strchr (p @ c # s) c = Some (length p)"
  by (induction p) (auto simp: strchr_def)

lemma strchr_none: "c \<notin> set s \<Longrightarrow> strchr s c = None"
  by (simp add: strchr_def)

lemma disconnect_publisher_closes:
  "pfd_fd (fds (disconnect_publisher i w) i) = -1 \<and> fd (clients (disconnect_publisher i w) i) = -1 \<and>
   closed (disconnect_publisher i w) = closed w @ [pfd_fd (fds w i)]"
  by (simp add: disconnect_publisher_def)

lemma persist_message_frame [simp]:
  "fds (persist_message t m p now w) = fds w" "clients (persist_message t m p now w) = clients w"
  "closed (persist_message t m p now w) = closed w" "sent (persist_message t m p now w) = sent w"
  "can_write (persist_message t m p now w) = can_write w"
  "can_rename (persist_message t m p now w) = can_rename w"
  by (simp_all add: persist_message_def Let_def)

text \<open>A read that begins with \<^verbatim>\<open>PUB\<close> goes to the publish branch whatever the client's type.\<close>

lemma pub_goes_to_dispatch:
  assumes "take 4 (cstr (take (BUFFER_SIZE - 1) incoming)) = ''PUB ''"
  shows "handle_client_data i p_mode p_duration now incoming w =
           dispatch_command i p_mode now (cstr (take (BUFFER_SIZE - 1) incoming)) w"
proof -
  let ?raw = "take (BUFFER_SIZE - 1) incoming"
  from assms have raw: "?raw \<noteq> []" by (auto simp: cstr_def)
  have pub: "strncmp_eq (cstr ?raw) ''PUB '' 4" and sub: "\<not> strncmp_eq (cstr ?raw) ''SUB '' 4"
    using assms by (simp_all add: strncmp_eq_def)
  show ?thesis
    using raw pub sub by (simp add: handle_client_data_def identify_client_def Let_def)
qed

lemma pub_buffer_parts:
  assumes "buffer = ''PUB '' @ t @ newline # m" and "newline \<notin> set t"
  shows "strncmp_eq buffer ''PUB '' 4" and "strchr buffer newline = Some (4 + length t)"
    and "drop 4 buffer = t @ newline # m" and "drop (5 + length t) buffer = m"
proof -
  have nl: "newline \<notin> set (''PUB '' @ t)"
    using assms(2) by (simp add: newline_def)
  have "strchr ((''PUB '' @ t) @ newline # m) newline = Some (length (''PUB '' @ t))"
    using nl by (rule strchr_first)
  then show "strchr buffer newline = Some (4 + length t)"
    by (simp add: assms(1))
  show "strncmp_eq buffer ''PUB '' 4" "drop 4 buffer = t @ newline # m"
    by (simp_all add: assms(1) strncmp_eq_def)
  have d: "drop (length p) (p @ m) = m" for p :: string
    by simp
  have e: "''PUB '' @ t @ newline # m = (''PUB '' @ t @ [newline]) @ m"
    by simp
  have l: "5 + length t = length (''PUB '' @ t @ [newline])"
    by simp
  show "drop (5 + length t) buffer = m"
    unfolding assms(1) e l by (rule d)
qed

lemma dispatch_pub_valid:
  assumes "buffer = ''PUB '' @ t @ newline # m"
      and "newline \<notin> set t" and "t \<noteq> []" and "length t < MAX_TOPIC_LEN"
  shows "dispatch_command i p_mode now buffer w =
           disconnect_publisher i
             (forward_to_subscribers t m (persist_message t m p_mode now w))"
  using assms(3,4) unfolding dispatch_command_def
  by (simp add: pub_buffer_parts [OF assms(1,2)] Let_def)

lemma dispatch_pub_bad_topic:
  assumes "buffer = ''PUB '' @ t @ newline # m"
      and "newline \<notin> set t" and "t = [] \<or> MAX_TOPIC_LEN \<le> length t"
  shows "dispatch_command i p_mode now buffer w =
           disconnect_publisher i (report_err (Malformed_PUB_topic (pfd_fd (fds w i)) buffer) w)"
  using assms(3) unfolding dispatch_command_def
  by (auto simp add: pub_buffer_parts [OF assms(1,2)] Let_def)

lemma dispatch_pub_no_newline:
  assumes "take 4 buffer = ''PUB ''" and "newline \<notin> set buffer"
  shows "dispatch_command i p_mode now buffer w =
           disconnect_publisher i
             (report_err (Malformed_PUB_no_newline (pfd_fd (fds w i)) buffer) w)"
  using assms by (simp add: dispatch_command_def strncmp_eq_def strchr_none)

text \<open>Every buffer that begins with \<^verbatim>\<open>PUB\<close> has one of the three shapes above.\<close>

lemma pub_shapes:
  assumes "take 4 buffer = ''PUB ''"
  shows "newline \<notin> set buffer \<or>
         (\<exists>t m. buffer = ''PUB '' @ t @ newline # m \<and> newline \<notin> set t)"
proof (cases "newline \<in> set buffer")
  case False
  then show ?thesis by simp
next
  case True
  have b: "buffer = ''PUB '' @ drop 4 buffer"
    using assms append_take_drop_id [of 4 buffer] by simp
  have "set buffer = set ''PUB '' \<union> set (drop 4 buffer)"
    by (subst b) (simp only: set_append)
  with True have "newline \<in> set (drop 4 buffer)"
    by (simp add: newline_def)
  then obtain t m where "drop 4 buffer = t @ newline # m" and "newline \<notin> set t"
    by (meson split_list_first)
  with b show ?thesis by auto
qed

lemma slots_Cons2: "[1..<Suc MAX_CLIENTS] = 1 # 2 # [3..<Suc MAX_CLIENTS]"
  by (simp add: MAX_CLIENTS_def upt_conv_Cons del: upt_Suc)

text \<open>
  C3. Let the buffer of a read begin with \<^verbatim>\<open>PUB\<close> and a space, for a client of any type.
  If the buffer has a newline and the topic before the first newline is not empty and is
  shorter than \<^verbatim>\<open>MAX_TOPIC_LEN\<close>, the message is the rest of the buffer after that newline
  and the call is \<^verbatim>\<open>persist_message\<close> on topic and message, then the forwarding loop on
  topic and message, then the closing of the publisher. If the newline is missing, or the
  topic is empty or too long, the call is one line on standard error and the closing of
  the publisher: no file is touched or opened and nothing is sent. In every case the
  descriptor of the slot has been closed and the slot is free.
\<close>

theorem pub_is_single_shot:
  assumes "buffer = cstr (take (BUFFER_SIZE - 1) incoming)" and "take 4 buffer = ''PUB ''"
      and "w' = handle_client_data i p_mode p_duration now incoming w"
  shows "(\<forall>t m. buffer = ''PUB '' @ t @ newline # m \<and> newline \<notin> set t \<and> t \<noteq> []
                  \<and> length t < MAX_TOPIC_LEN \<longrightarrow>
            w' = disconnect_publisher i
                   (forward_to_subscribers t m (persist_message t m p_mode now w))) \<and>
         (newline \<notin> set buffer \<or>
          (\<exists>t m. buffer = ''PUB '' @ t @ newline # m \<and> newline \<notin> set t
                  \<and> (t = [] \<or> MAX_TOPIC_LEN \<le> length t)) \<longrightarrow>
            (\<exists>r. w' = disconnect_publisher i (report_err r w) \<and> errlog w' = errlog w @ [r]) \<and>
            files w' = files w \<and> opened w' = opened w \<and> sent w' = sent w) \<and>
         pfd_fd (fds w' i) = -1 \<and> fd (clients w' i) = -1 \<and>
         closed w' = closed w @ [pfd_fd (fds w i)]"
proof -
  have w': "w' = dispatch_command i p_mode now buffer w"
    using assms by (simp add: pub_goes_to_dispatch)
  have valid: "w' = disconnect_publisher i
                   (forward_to_subscribers t m (persist_message t m p_mode now w))"
    if "buffer = ''PUB '' @ t @ newline # m" "newline \<notin> set t" "t \<noteq> []"
       "length t < MAX_TOPIC_LEN" for t m
    unfolding w' using that by (rule dispatch_pub_valid)
  have bad: "\<exists>r. w' = disconnect_publisher i (report_err r w)"
    if "newline \<notin> set buffer \<or>
        (\<exists>t m. buffer = ''PUB '' @ t @ newline # m \<and> newline \<notin> set t
                \<and> (t = [] \<or> MAX_TOPIC_LEN \<le> length t))"
    using that
  proof
    assume "newline \<notin> set buffer"
    with assms(2) show ?thesis
      unfolding w' by (blast intro: dispatch_pub_no_newline)
  next
    assume "\<exists>t m. buffer = ''PUB '' @ t @ newline # m \<and> newline \<notin> set t
                \<and> (t = [] \<or> MAX_TOPIC_LEN \<le> length t)"
    then show ?thesis
      unfolding w' by (blast intro: dispatch_pub_bad_topic)
  qed
  have bad_frame: "(\<exists>r. w' = disconnect_publisher i (report_err r w) \<and> errlog w' = errlog w @ [r])
      \<and> files w' = files w \<and> opened w' = opened w \<and> sent w' = sent w"
    if "\<exists>r. w' = disconnect_publisher i (report_err r w)"
    using that by (auto simp: disconnect_publisher_def report_err_def)
  have "\<exists>v. w' = disconnect_publisher i v \<and> fds v = fds w \<and> closed v = closed w"
    using pub_shapes [OF assms(2)]
  proof
    assume "newline \<notin> set buffer"
    then obtain r where "w' = disconnect_publisher i (report_err r w)"
      using bad by blast
    then show ?thesis by (auto simp: report_err_def)
  next
    assume "\<exists>t m. buffer = ''PUB '' @ t @ newline # m \<and> newline \<notin> set t"
    then obtain t m where b: "buffer = ''PUB '' @ t @ newline # m" "newline \<notin> set t"
      by blast
    show ?thesis
    proof (cases "t \<noteq> [] \<and> length t < MAX_TOPIC_LEN")
      case True
      with b valid have "w' = disconnect_publisher i
                   (forward_to_subscribers t m (persist_message t m p_mode now w))"
        by blast
      then show ?thesis by force
    next
      case False
      with b have "\<exists>t m. buffer = ''PUB '' @ t @ newline # m \<and> newline \<notin> set t
                \<and> (t = [] \<or> MAX_TOPIC_LEN \<le> length t)"
        by (metis not_le_imp_less)
      then obtain r where "w' = disconnect_publisher i (report_err r w)"
        using bad by blast
      then show ?thesis by (auto simp: report_err_def)
    qed
  qed
  then have closed: "pfd_fd (fds w' i) = -1 \<and> fd (clients w' i) = -1 \<and>
         closed w' = closed w @ [pfd_fd (fds w i)]"
    using disconnect_publisher_closes by auto
  show ?thesis
    using valid bad bad_frame closed by blast
qed

definition pub_world :: world where
  "pub_world = (init_world 3)
     \<lparr>fds := (fds (init_world 3))(1 := \<lparr>pfd_fd = 6, events = POLLIN\<rparr>,
                                   2 := \<lparr>pfd_fd = 7, events = POLLIN\<rparr>),
       clients := (clients (init_world 3))
                    (1 := \<lparr>fd = 6, type = CLIENT_TYPE_UNKNOWN, topic = []\<rparr>,
                     2 := \<lparr>fd = 7, type = CLIENT_TYPE_SUBSCRIBER, topic = ''weather''\<rparr>)\<rparr>"

lemma subscribers_of_cong:
  "fds v = fds w \<Longrightarrow> clients v = clients w \<Longrightarrow> subscribers_of v t = subscribers_of w t"
  by (simp add: subscribers_of_def)

lemma subscribers_of_pub_world: "subscribers_of pub_world ''weather'' = [2]"
  unfolding subscribers_of_def slots_Cons2
  by (simp add: pub_world_def init_world_def filter_empty_conv)

theorem pub_is_single_shot_witness:
  "sent (handle_client_data 1 PERSIST_ALL 0 1700000000 ''PUB weather\<newline>sunny'' pub_world) =
     [(7, ''MSG weather\<newline>sunny'')] \<and>
   files (handle_client_data 1 PERSIST_ALL 0 1700000000 ''PUB weather\<newline>sunny'' pub_world)
     ''logs/weather.log'' = Some ''sunny'' \<and>
   closed (handle_client_data 1 PERSIST_ALL 0 1700000000 ''PUB weather\<newline>sunny'' pub_world) = [6] \<and>
   sent (handle_client_data 1 PERSIST_ALL 0 1700000000 ''PUB weather'' pub_world) = [] \<and>
   files (handle_client_data 1 PERSIST_ALL 0 1700000000 ''PUB weather'' pub_world) = Map.empty \<and>
   closed (handle_client_data 1 PERSIST_ALL 0 1700000000 ''PUB weather'' pub_world) = [6]"
proof -
  have b: "''PUB weather\<newline>sunny'' = cstr (take (BUFFER_SIZE - 1) ''PUB weather\<newline>sunny'')"
    "''PUB weather'' = cstr (take (BUFFER_SIZE - 1) ''PUB weather'')"
    by (simp_all add: cstr_def NUL_def BUFFER_SIZE_def)
  have p: "take 4 ''PUB weather\<newline>sunny'' = ''PUB ''" "take 4 ''PUB weather'' = ''PUB ''"
    by simp_all
  have w0: "sent pub_world = [] \<and> closed pub_world = [] \<and> pfd_fd (fds pub_world 1) = 6 \<and>
            files pub_world = Map.empty \<and> can_write pub_world = (\<lambda>p. True) \<and>
            (\<forall>j. fd (clients pub_world j) = pfd_fd (fds pub_world j))"
    by (simp add: pub_world_def init_world_def)
  note valid = pub_is_single_shot [OF b(1) p(1) refl, of 1 PERSIST_ALL 0 1700000000 pub_world,
      THEN conjunct1, rule_format, of "''weather''" "''sunny''"]
  have "handle_client_data 1 PERSIST_ALL 0 1700000000 ''PUB weather\<newline>sunny'' pub_world =
          disconnect_publisher 1
            (forward_to_subscribers ''weather'' ''sunny''
               (persist_message ''weather'' ''sunny'' PERSIST_ALL 1700000000 pub_world))"
    by (rule valid) (simp add: newline_def MAX_TOPIC_LEN_def)
  moreover
  from pub_is_single_shot [OF b(2) p(2) refl, of 1 PERSIST_ALL 0 1700000000 pub_world]
  have "files (handle_client_data 1 PERSIST_ALL 0 1700000000 ''PUB weather'' pub_world) = files pub_world \<and>
        sent (handle_client_data 1 PERSIST_ALL 0 1700000000 ''PUB weather'' pub_world) = sent pub_world \<and>
        closed (handle_client_data 1 PERSIST_ALL 0 1700000000 ''PUB weather'' pub_world) =
          closed pub_world @ [pfd_fd (fds pub_world 1)]"
    by (simp add: newline_def)
  moreover
  define v where "v = persist_message ''weather'' ''sunny'' PERSIST_ALL 1700000000 pub_world"
  have v: "files v ''logs/weather.log'' = Some ''sunny'' \<and> sent v = [] \<and> closed v = [] \<and>
           fds v = fds pub_world \<and> clients v = clients pub_world"
    using w0 by (simp add: v_def persist_message_def file_append_def log_path_def LOG_DIR_def Let_def)
  then have "subscribers_of v ''weather'' = [2]"
    using subscribers_of_cong [of v pub_world] subscribers_of_pub_world by simp
  ultimately show ?thesis
    using w0 v unfolding v_def [symmetric]
    by (simp add: forward_to_subscribers_eq disconnect_publisher_def msg_frame_def
        BUFFER_SIZE_def newline_def pub_world_def init_world_def)
qed

subsection \<open>The frame of a publish fits the send buffer\<close>


subsection \<open>The lines of a log\<close>

text \<open>
  The lines the loop \<^verbatim>\<open>while (fgets(line, sizeof(line), fp_read))\<close> reads from a file, one
  after the other, until \<^verbatim>\<open>fgets\<close> returns a null pointer.
\<close>

function read_lines :: "string \<Rightarrow> string list" where
  "read_lines unread =
     (case fgets_line unread of
        None \<Rightarrow> []
      | Some (line, rest) \<Rightarrow> line # read_lines rest)"
  by pat_completeness auto
termination
  by (relation "measure length") (auto simp: fgets_line_shorter)

declare read_lines.simps [simp del]

lemma replay_loop_fold:
  "replay_loop sock m d now tmp unread w =
     fold (replay_line sock m d now tmp) (read_lines unread) w"
proof (induction sock m d now tmp unread w rule: replay_loop.induct)
  case (1 sock m d now tmp unread w)
  show ?case
  proof (cases "fgets_line unread")
    case None
    then show ?thesis
      by (subst replay_loop.simps, subst read_lines.simps) simp
  next
    case (Some lr)
    obtain line rest where lr: "lr = (line, rest)" by (cases lr)
    from "1.IH" [OF Some [unfolded lr] refl] Some lr show ?thesis
      by (subst replay_loop.simps, subst read_lines.simps) simp
  qed
qed

lemma read_lines_Nil [simp]: "read_lines [] = []"
  by (subst read_lines.simps) (simp add: fgets_line_def)

lemma fgets_whole_line:
  "newline \<notin> set body \<Longrightarrow> length body < n \<Longrightarrow>
   fgets n (body @ newline # rest) = (body @ [newline], rest)"
proof (induction body arbitrary: n)
  case Nil
  then show ?case by (cases n) auto
next
  case (Cons c body)
  then obtain k where n: "n = Suc k" by (cases n) auto
  with Cons show ?case by auto
qed

lemma fgets_last_line:
  "newline \<notin> set s \<Longrightarrow> length s \<le> n \<Longrightarrow> fgets n s = (s, [])"
proof (induction s arbitrary: n)
  case Nil
  then show ?case by (cases n) auto
next
  case (Cons c s)
  then obtain k where n: "n = Suc k" by (cases n) auto
  with Cons show ?case by auto
qed

lemma read_lines_whole_line:
  assumes "newline \<notin> set body" and "length body < BUFFER_SIZE - 1"
  shows "read_lines (body @ newline # rest) = (body @ [newline]) # read_lines rest"
  using fgets_whole_line [OF assms, of rest]
  by (subst read_lines.simps) (simp add: fgets_line_def)

lemma read_lines_last_line:
  assumes "newline \<notin> set s" and "length s \<le> BUFFER_SIZE - 1" and "s \<noteq> []"
  shows "read_lines s = [s]"
  using fgets_last_line [OF assms(1,2)] assms(3)
  by (subst read_lines.simps) (simp add: fgets_line_def)

subsection \<open>The log under mode all\<close>

lemma cstr_id: "NUL \<notin> set s \<Longrightarrow> cstr s = s"
  by (auto simp: cstr_def)

text \<open>A command that arrives whole in one read, with no NUL in it.\<close>

lemma read_pub_whole:
  assumes "NUL \<notin> set t" and "NUL \<notin> set m" and "length t + length m + 5 < BUFFER_SIZE"
  shows "cstr (take (BUFFER_SIZE - 1) (''PUB '' @ t @ newline # m)) = ''PUB '' @ t @ newline # m"
proof -
  have "length (''PUB '' @ t @ newline # m) \<le> BUFFER_SIZE - 1"
    using assms(3) by simp
  then have a: "take (BUFFER_SIZE - 1) (''PUB '' @ t @ newline # m) = ''PUB '' @ t @ newline # m"
    by (rule take_all)
  have b: "NUL \<notin> set (''PUB '' @ t @ newline # m)"
    using assms(1,2) by (simp add: NUL_def newline_def)
  show ?thesis
    unfolding a by (rule cstr_id [OF b])
qed

lemma publish_is_persist:
  assumes "cstr (take (BUFFER_SIZE - 1) incoming) = ''PUB '' @ t @ newline # m"
      and "newline \<notin> set t" and "t \<noteq> []" and "length t < MAX_TOPIC_LEN"
  shows "handle_client_data i p_mode d now incoming w =
           disconnect_publisher i (forward_to_subscribers t m (persist_message t m p_mode now w))"
proof -
  have "take 4 (cstr (take (BUFFER_SIZE - 1) incoming)) = ''PUB ''"
    unfolding assms(1) by simp
  then have "handle_client_data i p_mode d now incoming w =
      dispatch_command i p_mode now (cstr (take (BUFFER_SIZE - 1) incoming)) w"
    by (rule pub_goes_to_dispatch)
  also have "\<dots> = disconnect_publisher i
                      (forward_to_subscribers t m (persist_message t m p_mode now w))"
    using assms by (rule dispatch_pub_valid)
  finally show ?thesis .
qed

lemma persist_all_appends:
  assumes "can_write w (log_path t)"
  shows "files (persist_message t m PERSIST_ALL now w) =
           (files w)(log_path t \<mapsto> (case files w (log_path t) of None \<Rightarrow> [] | Some c \<Rightarrow> c) @ m)"
  using assms by (simp add: persist_message_def file_append_def Let_def)

text \<open>One publisher: it is accepted, then its \<^verbatim>\<open>PUB\<close> is read in slot \<open>i\<close> at time \<open>now\<close>.\<close>

definition publish_all ::
  "c_int \<Rightarrow> string \<Rightarrow> int \<times> nat \<times> time_t \<times> string \<Rightarrow> world \<Rightarrow> world" where
  "publish_all d t p w =
     (case p of
        (new_socket, i, now, m) \<Rightarrow>
          handle_client_data i PERSIST_ALL d now (''PUB '' @ t @ newline # m)
            (handle_new_connection new_socket w))"

definition message_of :: "int \<times> nat \<times> time_t \<times> string \<Rightarrow> string" where
  "message_of p = (case p of (new_socket, i, now, m) \<Rightarrow> m)"

lemma handle_new_connection_can_write [simp]:
  "can_write (handle_new_connection s w) = can_write w"
  by (simp add: handle_new_connection_def split: option.splits)

lemma disconnect_publisher_can_write [simp]:
  "can_write (disconnect_publisher i w) = can_write w"
  by (simp add: disconnect_publisher_def)

lemma publish_all_appends:
  assumes "t \<noteq> []" and "length t < MAX_TOPIC_LEN" and "newline \<notin> set t" and "NUL \<notin> set t"
      and "NUL \<notin> set (message_of p)" and "length t + length (message_of p) + 5 < BUFFER_SIZE"
      and "can_write w (log_path t)"
  shows "files (publish_all d t p w) =
           (files w)(log_path t \<mapsto>
              (case files w (log_path t) of None \<Rightarrow> [] | Some c \<Rightarrow> c) @ message_of p)"
    and "can_write (publish_all d t p w) = can_write w"
proof -
  obtain s i now m where p: "p = (s, i, now, m)" by (cases p)
  have m: "NUL \<notin> set m" "length t + length m + 5 < BUFFER_SIZE"
    using assms(5,6) by (simp_all add: p message_of_def)
  have rd: "cstr (take (BUFFER_SIZE - 1) (''PUB '' @ t @ newline # m)) = ''PUB '' @ t @ newline # m"
    using assms(4) m by (rule read_pub_whole)
  have eq: "publish_all d t p w =
      disconnect_publisher i
        (forward_to_subscribers t m (persist_message t m PERSIST_ALL now (handle_new_connection s w)))"
    unfolding publish_all_def p prod.case
    using rd assms(3,1,2) by (rule publish_is_persist)
  have cw: "can_write (handle_new_connection s w) (log_path t)"
    using assms(7) by simp
  show "files (publish_all d t p w) =
           (files w)(log_path t \<mapsto>
              (case files w (log_path t) of None \<Rightarrow> [] | Some c \<Rightarrow> c) @ message_of p)"
    unfolding eq using persist_all_appends [OF cw, of m now]
    by (simp add: p message_of_def)
  show "can_write (publish_all d t p w) = can_write w"
    unfolding eq by simp
qed

lemma publish_all_fold:
  assumes "t \<noteq> []" and "length t < MAX_TOPIC_LEN" and "newline \<notin> set t" and "NUL \<notin> set t"
      and "\<forall>p\<in>set ps. NUL \<notin> set (message_of p) \<and> length t + length (message_of p) + 5 < BUFFER_SIZE"
      and "can_write w (log_path t)" and "ps \<noteq> []"
  shows "files (fold (publish_all d t) ps w) (log_path t) =
           Some ((case files w (log_path t) of None \<Rightarrow> [] | Some c \<Rightarrow> c) @ concat (map message_of ps))"
  using assms(5-7)
proof (induction ps arbitrary: w)
  case Nil
  then show ?case by simp
next
  case (Cons p ps)
  have p: "NUL \<notin> set (message_of p)" "length t + length (message_of p) + 5 < BUFFER_SIZE"
    using Cons.prems(1) by simp_all
  note step = publish_all_appends [OF assms(1-4) p Cons.prems(2), of d]
  show ?case
  proof (cases "ps = []")
    case True
    then show ?thesis by (simp add: step(1))
  next
    case False
    have "files (fold (publish_all d t) ps (publish_all d t p w)) (log_path t) =
            Some ((case files (publish_all d t p w) (log_path t) of None \<Rightarrow> [] | Some c \<Rightarrow> c)
                    @ concat (map message_of ps))"
      using Cons.prems(1,2) False by (intro Cons.IH) (simp_all add: step(2))
    then show ?thesis by (simp add: step(1))
  qed
qed

lemma read_lines_of_lines:
  assumes "\<forall>m\<in>set ms. \<exists>body. m = body @ [newline] \<and> newline \<notin> set body \<and> length body < BUFFER_SIZE - 1"
  shows "read_lines (concat ms) = ms"
  using assms
proof (induction ms)
  case Nil
  then show ?case by simp
next
  case (Cons m ms)
  then obtain body where m: "m = body @ [newline]" "newline \<notin> set body" "length body < BUFFER_SIZE - 1"
    by auto
  have "read_lines (body @ newline # concat ms) = (body @ [newline]) # read_lines (concat ms)"
    using m(2,3) by (rule read_lines_whole_line)
  with Cons m show ?case by simp
qed

lemma log_path_weather: "log_path ''weather'' = ''logs/weather.log''"
  by (simp add: log_path_def LOG_DIR_def)

text \<open>
  C5 as stated fails. Two publishers send \<^verbatim>\<open>72F\<close> and then \<^verbatim>\<open>75F\<close> to the topic
  \<^verbatim>\<open>weather\<close>, as the publisher of the repository frames them (no newline after the
  message). The log then holds the six bytes \<^verbatim>\<open>72F75F\<close>: one line, not two, and neither
  message is a line of it.
\<close>

theorem two_publishes_one_line:
  "files (fold (publish_all 0 ''weather'')
            [(5, 1, 1700000000, ''72F''), (6, 1, 1700000001, ''75F'')] (init_world 3))
     ''logs/weather.log'' = Some ''72F75F'' \<and>
   read_lines ''72F75F'' = [''72F75F''] \<and>
   length (read_lines ''72F75F'') \<noteq> 2"
proof -
  have "files (fold (publish_all 0 ''weather'')
            [(5, 1, 1700000000, ''72F''), (6, 1, 1700000001, ''75F'')] (init_world 3))
          (log_path ''weather'') =
        Some ((case files (init_world 3) (log_path ''weather'') of None \<Rightarrow> [] | Some c \<Rightarrow> c) @
              concat (map message_of [(5, 1, 1700000000, ''72F''), (6, 1, 1700000001, ''75F'')]))"
    by (rule publish_all_fold)
       (simp_all add: MAX_TOPIC_LEN_def BUFFER_SIZE_def newline_def NUL_def message_of_def
          init_world_def)
  moreover have "read_lines ''72F75F'' = [''72F75F'']"
    by (rule read_lines_last_line) (simp_all add: newline_def BUFFER_SIZE_def)
  ultimately show ?thesis
    by (simp add: log_path_weather message_of_def init_world_def)
qed

text \<open>
  C5, amended. Under mode all, let the log of the topic be absent or empty and let it be
  possible to open it for appending. After N publishers (N at least 1) have each sent one
  message to the topic, every command arriving whole in one read and without a NUL byte,
  the log holds the N messages one after the other in the order of the publishes, byte
  for byte (the code adds nothing, in particular no newline). If every message is one
  line ending in a newline, the lines of the log are exactly the N messages, in order.
\<close>

theorem all_mode_log_is_the_messages:
  assumes "t \<noteq> []" and "length t < MAX_TOPIC_LEN" and "newline \<notin> set t" and "NUL \<notin> set t"
      and "\<forall>p\<in>set ps. NUL \<notin> set (message_of p) \<and> length t + length (message_of p) + 5 < BUFFER_SIZE"
      and "can_write w (log_path t)" and "ps \<noteq> []"
      and "files w (log_path t) = None \<or> files w (log_path t) = Some []"
  shows "files (fold (publish_all d t) ps w) (log_path t) = Some (concat (map message_of ps)) \<and>
         ((\<forall>p\<in>set ps. \<exists>body. message_of p = body @ [newline] \<and> newline \<notin> set body) \<longrightarrow>
            read_lines (concat (map message_of ps)) = map message_of ps \<and>
            length (read_lines (concat (map message_of ps))) = length ps)"
proof -
  have "files (fold (publish_all d t) ps w) (log_path t) =
          Some ((case files w (log_path t) of None \<Rightarrow> [] | Some c \<Rightarrow> c) @ concat (map message_of ps))"
    using assms(1-7) by (rule publish_all_fold)
  with assms(8) have log: "files (fold (publish_all d t) ps w) (log_path t) =
      Some (concat (map message_of ps))"
    by auto
  have lines: "read_lines (concat (map message_of ps)) = map message_of ps"
    if l: "\<forall>p\<in>set ps. \<exists>body. message_of p = body @ [newline] \<and> newline \<notin> set body"
  proof (rule read_lines_of_lines, rule ballI)
    fix m assume "m \<in> set (map message_of ps)"
    then obtain p where p: "p \<in> set ps" "m = message_of p" by auto
    with l obtain body where b: "m = body @ [newline]" "newline \<notin> set body" by auto
    from p assms(5) have "length t + length m + 5 < BUFFER_SIZE" by auto
    with b have "length body < BUFFER_SIZE - 1" by simp
    with b show "\<exists>body. m = body @ [newline] \<and> newline \<notin> set body \<and> length body < BUFFER_SIZE - 1"
      by blast
  qed
  show ?thesis
    using log lines by simp
qed

theorem all_mode_log_is_the_messages_witness:
  "files (fold (publish_all 0 ''weather'')
            [(5, 1, 1700000000, ''72F\<newline>''), (6, 1, 1700000001, ''75F\<newline>'')] (init_world 3))
     ''logs/weather.log'' = Some ''72F\<newline>75F\<newline>'' \<and>
   read_lines ''72F\<newline>75F\<newline>'' = [''72F\<newline>'', ''75F\<newline>'']"
proof -
  let ?ps = "[(5, 1, 1700000000, ''72F\<newline>''), (6, 1, 1700000001, ''75F\<newline>'')]"
  have lines: "\<forall>p\<in>set ?ps. \<exists>body. message_of p = body @ [newline] \<and> newline \<notin> set body"
    by (simp add: message_of_def newline_def)
  have pre: "''weather'' \<noteq> []" "length ''weather'' < MAX_TOPIC_LEN" "newline \<notin> set ''weather''"
    "NUL \<notin> set ''weather''"
    "\<forall>p\<in>set ?ps. NUL \<notin> set (message_of p) \<and> length ''weather'' + length (message_of p) + 5 < BUFFER_SIZE"
    "can_write (init_world 3) (log_path ''weather'')" "?ps \<noteq> []"
    "files (init_world 3) (log_path ''weather'') = None \<or> files (init_world 3) (log_path ''weather'') = Some []"
    by (simp_all add: MAX_TOPIC_LEN_def BUFFER_SIZE_def newline_def NUL_def message_of_def
          init_world_def)
  from all_mode_log_is_the_messages [OF pre, of 0] lines show ?thesis
    by (simp add: log_path_weather message_of_def)
qed

subsection \<open>Printing a timestamp and reading it back\<close>

lemma isdigit_digit_char: "d < 10 \<Longrightarrow> isdigit (digit_char d)"
  by (simp add: isdigit_def digit_char_def)

lemma digit_val_digit_char: "d < 10 \<Longrightarrow> digit_val (digit_char d) = d"
  by (simp add: digit_val_def digit_char_def)

lemma isdigit_not_space: "isdigit c \<Longrightarrow> \<not> isspace c"
  by (auto simp: isdigit_def isspace_def)

lemma isdigit_not_sign: "isdigit c \<Longrightarrow> c \<noteq> CHR ''-'' \<and> c \<noteq> CHR ''+''"
  by (auto simp: isdigit_def)

lemma not_isdigit_space: "\<not> isdigit CHR '' ''"
  by (simp add: isdigit_def)

lemma digits_val_snoc: "digits_val (ds @ [c]) = 10 * digits_val ds + digit_val c"
  by (simp add: digits_val_def)

lemma show_nat_digits: "show_nat n \<noteq> [] \<and> (\<forall>c\<in>set (show_nat n). isdigit c) \<and> digits_val (show_nat n) = n"
proof (induction n rule: show_nat.induct)
  case (1 n)
  show ?case
  proof (cases "n < 10")
    case True
    then show ?thesis
      by (subst (1 2 3) show_nat.simps)
         (simp add: isdigit_digit_char digit_val_digit_char digits_val_def)
  next
    case False
    with 1 have ih: "show_nat (n div 10) \<noteq> []" "\<forall>c\<in>set (show_nat (n div 10)). isdigit c"
      "digits_val (show_nat (n div 10)) = n div 10"
      by simp_all
    have d: "n mod 10 < 10" by simp
    from False ih d show ?thesis
      by (subst (1 2 3) show_nat.simps)
         (simp add: isdigit_digit_char digit_val_digit_char digits_val_snoc)
  qed
qed

lemma strtol_digits:
  assumes "ds \<noteq> []" and "\<forall>c\<in>set ds. isdigit c" and "\<not> isdigit c"
  shows "strtol (ds @ c # rest) = (word_of_int (min LONG_MAX (int (digits_val ds))), c # rest)"
proof -
  obtain x xs where ds: "ds = x # xs" using assms(1) by (cases ds) auto
  with assms(2) have x: "isdigit x" by simp
  have sp: "dropWhile isspace (ds @ c # rest) = ds @ c # rest"
    using x by (simp add: ds isdigit_not_space)
  have hd: "hd (ds @ c # rest) = x" by (simp add: ds)
  have tw: "takeWhile isdigit (ds @ c # rest) = ds"
    using assms(2,3) by (simp add: takeWhile_append2)
  have dw: "dropWhile isdigit (ds @ c # rest) = c # rest"
    using assms(2,3) by (simp add: dropWhile_append2)
  show ?thesis
    unfolding strtol_def sp Let_def hd
    using isdigit_not_sign [OF x] assms(1) by (simp add: tw dw)
qed

lemma strtol_minus_digits:
  assumes "ds \<noteq> []" and "\<forall>c\<in>set ds. isdigit c" and "\<not> isdigit c"
  shows "strtol (CHR ''-'' # ds @ c # rest) =
           (word_of_int (max LONG_MIN (- int (digits_val ds))), c # rest)"
proof -
  have tw: "takeWhile isdigit (ds @ c # rest) = ds"
    using assms(2,3) by (simp add: takeWhile_append2)
  have dw: "dropWhile isdigit (ds @ c # rest) = c # rest"
    using assms(2,3) by (simp add: dropWhile_append2)
  have sp: "dropWhile isspace (CHR ''-'' # ds @ c # rest) = CHR ''-'' # ds @ c # rest"
    by (simp add: isspace_def)
  show ?thesis
    unfolding strtol_def sp Let_def
    using assms(1) by (simp add: tw dw)
qed

lemma strtol_show_long: "strtol (show_long x @ CHR '' '' # rest) = (x, CHR '' '' # rest)"
proof (cases "sint x < 0")
  case True
  let ?n = "nat (- sint x)"
  note d = show_nat_digits [of ?n]
  have "strtol (CHR ''-'' # show_nat ?n @ CHR '' '' # rest) =
          (word_of_int (max LONG_MIN (- int (digits_val (show_nat ?n)))), CHR '' '' # rest)"
    using d not_isdigit_space by (intro strtol_minus_digits) simp_all
  moreover have "LONG_MIN \<le> sint x"
    using sint_ge [of x] by (simp add: LONG_MIN_def)
  then have "max LONG_MIN (- int (digits_val (show_nat ?n))) = sint x"
    using True d by simp
  ultimately show ?thesis
    using True by (simp add: show_long_def)
next
  case False
  let ?n = "nat (sint x)"
  note d = show_nat_digits [of ?n]
  have "strtol (show_nat ?n @ CHR '' '' # rest) =
          (word_of_int (min LONG_MAX (int (digits_val (show_nat ?n)))), CHR '' '' # rest)"
    using d not_isdigit_space by (intro strtol_digits) simp_all
  moreover have "sint x \<le> LONG_MAX"
    using sint_lt [of x] by (simp add: LONG_MAX_def)
  then have "min LONG_MAX (int (digits_val (show_nat ?n))) = sint x"
    using False d by simp
  ultimately show ?thesis
    using False by (simp add: show_long_def)
qed

subsection \<open>Replay of a timed log\<close>

text \<open>
  The loop handles a log piece by piece, a piece being what one call of \<^verbatim>\<open>fgets\<close>
  yields (a whole line of the file when the line, its newline included, has at most
  \<^verbatim>\<open>BUFFER_SIZE - 1\<close> bytes). The functions below give the timestamp and the message
  that \<open>parse_entry\<close> takes from a piece, the pieces for which the test of line 98
  holds, and what is printed to the temporary file for a piece: its timestamp, a space
  and its message.
\<close>

definition entry_time :: "string \<Rightarrow> time_t" where
  "entry_time line = fst (parse_entry line)"

definition entry_message :: "string \<Rightarrow> string" where
  "entry_message line = snd (parse_entry line)"

definition unexpired :: "time_t \<Rightarrow> c_int \<Rightarrow> string list \<Rightarrow> string list" where
  "unexpired now d ls = filter (\<lambda>l. still_valid now d (entry_time l)) ls"

definition requeued :: "string \<Rightarrow> string" where
  "requeued line = show_long (entry_time line) @ '' '' @ entry_message line"

lemma replay_line_timed:
  "replay_line sock PERSIST_TIMED d now tmp line w =
     (if still_valid now d (entry_time line)
      then file_append tmp (requeued line) (w\<lparr>sent := sent w @ [(sock, entry_message line)]\<rparr>)
      else w)"
  by (simp add: replay_line_def entry_time_def entry_message_def requeued_def split: prod.splits)

lemma fold_replay_timed_sent:
  "sent (fold (replay_line sock PERSIST_TIMED d now tmp) ls w) =
     sent w @ map (\<lambda>l. (sock, entry_message l)) (unexpired now d ls)"
  by (induction ls arbitrary: w) (simp_all add: replay_line_timed unexpired_def)

lemma fold_replay_timed_files:
  assumes "files w tmp = Some c"
  shows "files (fold (replay_line sock PERSIST_TIMED d now tmp) ls w) =
           (files w)(tmp \<mapsto> c @ concat (map requeued (unexpired now d ls)))"
  using assms
proof (induction ls arbitrary: w c)
  case Nil
  then show ?case by (simp add: unexpired_def fun_upd_idem)
next
  case (Cons l ls)
  show ?case
  proof (cases "still_valid now d (entry_time l)")
    case False
    then have step: "replay_line sock PERSIST_TIMED d now tmp l w = w"
      by (simp add: replay_line_timed)
    have "files (fold (replay_line sock PERSIST_TIMED d now tmp) (l # ls) w) =
            files (fold (replay_line sock PERSIST_TIMED d now tmp) ls w)"
      by (simp only: fold_simps step)
    also note Cons.IH [OF Cons.prems]
    finally show ?thesis
      using False by (simp add: unexpired_def)
  next
    case True
    let ?w = "file_append tmp (requeued l) (w\<lparr>sent := sent w @ [(sock, entry_message l)]\<rparr>)"
    have f: "files ?w tmp = Some (c @ requeued l)"
      using Cons.prems by (simp add: file_append_def)
    have e: "(files ?w)(tmp \<mapsto> (c @ requeued l) @ r) = (files w)(tmp \<mapsto> c @ requeued l @ r)" for r
      by (simp add: file_append_def)
    have step: "replay_line sock PERSIST_TIMED d now tmp l w = ?w"
      using True by (simp add: replay_line_timed)
    have "files (fold (replay_line sock PERSIST_TIMED d now tmp) (l # ls) w) =
            files (fold (replay_line sock PERSIST_TIMED d now tmp) ls ?w)"
      by (simp only: fold_simps step)
    also note Cons.IH [OF f]
    also note e
    finally show ?thesis
      using True by (simp add: unexpired_def)
  qed
qed

lemma fold_replay_all:
  "sent (fold (replay_line sock PERSIST_ALL d now tmp) ls w) = sent w @ map (\<lambda>l. (sock, cstr l)) ls"
  "files (fold (replay_line sock PERSIST_ALL d now tmp) ls w) = files w"
  by (induction ls arbitrary: w) (simp_all add: replay_line_def)

lemma paths_differ: "length t < MAX_TOPIC_LEN \<Longrightarrow> log_path t \<noteq> tmp_path t"
proof
  assume "length t < MAX_TOPIC_LEN" and "log_path t = tmp_path t"
  then have "length (log_path t) = length (tmp_path t)" by simp
  with \<open>length t < MAX_TOPIC_LEN\<close> show False
    by (simp add: log_path_def tmp_path_def LOG_DIR_def MAX_TOPIC_LEN_def)
qed

lemma timed_replay:
  assumes "length t < MAX_TOPIC_LEN" and "files w (log_path t) = Some content"
      and "can_write w (tmp_path t)" and "can_rename w (tmp_path t)"
  shows "sent (send_persisted_messages sock t PERSIST_TIMED d now w) =
           sent w @ map (\<lambda>l. (sock, entry_message l)) (unexpired now d (read_lines content))"
    and "files (send_persisted_messages sock t PERSIST_TIMED d now w) =
           (files w)(log_path t \<mapsto> concat (map requeued (unexpired now d (read_lines content))),
                     tmp_path t := None)"
proof -
  let ?w3 = "w\<lparr>opened := opened w @ [log_path t, tmp_path t], files := (files w)(tmp_path t \<mapsto> [])\<rparr>"
  let ?w4 = "fold (replay_line sock PERSIST_TIMED d now (tmp_path t)) (read_lines content) ?w3"
  have f: "files ?w3 (tmp_path t) = Some []" by simp
  have run: "send_persisted_messages sock t PERSIST_TIMED d now w =
               ?w4\<lparr>files := (files ?w4)(log_path t := files ?w4 (tmp_path t), tmp_path t := None)\<rparr>"
    using assms(2-4) by (simp add: send_persisted_messages_def Let_def replay_loop_fold)
  show "sent (send_persisted_messages sock t PERSIST_TIMED d now w) =
           sent w @ map (\<lambda>l. (sock, entry_message l)) (unexpired now d (read_lines content))"
    unfolding run by (simp add: fold_replay_timed_sent)
  show "files (send_persisted_messages sock t PERSIST_TIMED d now w) =
           (files w)(log_path t \<mapsto> concat (map requeued (unexpired now d (read_lines content))),
                     tmp_path t := None)"
    unfolding run using paths_differ [OF assms(1)]
    by (auto simp add: fold_replay_timed_files [OF f])
qed

lemma all_replay:
  assumes "files w (log_path t) = Some content"
  shows "sent (send_persisted_messages sock t PERSIST_ALL d now w) =
           sent w @ map (\<lambda>l. (sock, cstr l)) (read_lines content)"
    and "files (send_persisted_messages sock t PERSIST_ALL d now w) = files w"
  using assms by (simp_all add: send_persisted_messages_def Let_def replay_loop_fold fold_replay_all)

lemma cstr_no_NUL: "NUL \<notin> set (cstr s)"
  unfolding cstr_def by (induction s) auto

lemma strtol_rest_subset: "set (snd (strtol s)) \<subseteq> set s"
proof -
  have t: "set (tl ys) \<subseteq> set ys" for ys :: string
    by (cases ys) auto
  have d: "set (dropWhile P ys) \<subseteq> set ys" for P and ys :: string
    by (auto dest: set_dropWhileD)
  have a: "set (dropWhile isdigit (tl (dropWhile isspace s))) \<subseteq> set s"
    using d [of isdigit "tl (dropWhile isspace s)"] t [of "dropWhile isspace s"] d [of isspace s]
    by blast
  have b: "set (dropWhile isdigit (dropWhile isspace s)) \<subseteq> set s"
    using d [of isdigit "dropWhile isspace s"] d [of isspace s] by blast
  show ?thesis
    using a b by (simp add: strtol_def Let_def)
qed

lemma entry_message_no_NUL: "NUL \<notin> set (entry_message l)"
proof -
  obtain v e where p: "strtol (cstr l) = (v, e)" by (cases "strtol (cstr l)")
  with strtol_rest_subset [of "cstr l"] cstr_no_NUL [of l] have e: "NUL \<notin> set e"
    by auto
  then have "NUL \<notin> set (tl e)"
    by (cases e) auto
  with e show ?thesis
    by (simp add: entry_message_def parse_entry_def p)
qed

lemma show_long_no_NUL: "NUL \<notin> set (show_long x)"
proof -
  have "isdigit c \<Longrightarrow> c \<noteq> NUL" for c
    by (auto simp: isdigit_def NUL_def)
  then have "NUL \<notin> set (show_nat n)" for n
    using show_nat_digits [of n] by blast
  then show ?thesis
    by (simp add: show_long_def NUL_def)
qed

text \<open>A requeued entry is read back with the timestamp and the message of the original.\<close>

lemma requeued_parses_back: "parse_entry (requeued l) = (entry_time l, entry_message l)"
proof -
  have "NUL \<notin> set (requeued l)"
    using show_long_no_NUL entry_message_no_NUL by (simp add: requeued_def NUL_def)
  then have c: "cstr (requeued l) = show_long (entry_time l) @ CHR '' '' # entry_message l"
    by (simp add: cstr_id requeued_def)
  show ?thesis
    by (simp add: parse_entry_def c strtol_show_long)
qed

definition timed_world :: world where
  "timed_world = (init_world 3)
     \<lparr>files := [''logs/weather.log'' \<mapsto> ''1699999990 fresh\<newline>1600000000 stale\<newline>'']\<rparr>"

lemma parse_fresh:
  "parse_entry ''1699999990 fresh\<newline>'' = (1699999990, ''fresh\<newline>'')"
  by (simp add: parse_entry_def cstr_def NUL_def strtol_def isspace_def isdigit_def
      digits_val_def digit_val_def LONG_MAX_def LONG_MIN_def)

lemma parse_stale:
  "parse_entry ''1600000000 stale\<newline>'' = (1600000000, ''stale\<newline>'')"
  by (simp add: parse_entry_def cstr_def NUL_def strtol_def isspace_def isdigit_def
      digits_val_def digit_val_def LONG_MAX_def LONG_MIN_def)

lemma digit_chars:
  "digit_char 0 = CHR ''0''" "digit_char (Suc 0) = CHR ''1''" "digit_char 2 = CHR ''2''"
  "digit_char 3 = CHR ''3''" "digit_char 4 = CHR ''4''" "digit_char 5 = CHR ''5''"
  "digit_char 6 = CHR ''6''" "digit_char 7 = CHR ''7''" "digit_char 8 = CHR ''8''"
  "digit_char 9 = CHR ''9''"
  by (simp_all add: digit_char_def char_of_def bit_0)

lemma show_fresh: "show_long 1699999990 = ''1699999990''"
  by (simp add: show_long_def show_nat.simps digit_chars)

subsection \<open>Entries without a timestamp\<close>

text \<open>
  A line does not begin with an integer when, after white space and one optional sign,
  no digit follows: this is when \<^verbatim>\<open>strtol\<close> converts nothing.
\<close>

definition no_leading_integer :: "string \<Rightarrow> bool" where
  "no_leading_integer line =
     (let s1 = dropWhile isspace (cstr line);
          s2 = (if s1 \<noteq> [] \<and> (hd s1 = CHR ''-'' \<or> hd s1 = CHR ''+'') then tl s1 else s1)
      in takeWhile isdigit s2 = [])"

lemma no_leading_integer_time: "no_leading_integer line \<Longrightarrow> entry_time line = 0"
  by (simp add: no_leading_integer_def entry_time_def parse_entry_def strtol_def Let_def
      split: if_splits)

lemma expired_at_zero: "sint d < sint now \<Longrightarrow> \<not> still_valid now d 0"
  by (simp add: still_valid_def)

lemma unexpired_skips:
  assumes "sint d < sint now"
  shows "unexpired now d ls = unexpired now d (filter (\<lambda>l. \<not> no_leading_integer l) ls)"
proof -
  have "still_valid now d (entry_time l) \<Longrightarrow> \<not> no_leading_integer l" for l
    using expired_at_zero [OF assms] no_leading_integer_time [of l] by auto
  then show ?thesis
    unfolding unexpired_def filter_filter by (intro filter_cong) auto
qed

text \<open>
  C9. In a timed replay, a line that does not begin with an integer gets the timestamp 0.
  Whenever \<open>now\<close> is greater than the duration, the test of line 98 fails for it: the loop
  body leaves the world as it was, so the line is neither written to the subscriber nor
  put into the rewritten log, and the replay of a log sends and keeps exactly what the
  replay of the log without such lines would.
\<close>

theorem unparsed_timestamp_is_zero:
  assumes "no_leading_integer line" and "sint d < sint now"
  shows "entry_time line = 0 \<and>
         \<not> still_valid now d (entry_time line) \<and>
         replay_line sock PERSIST_TIMED d now tmp line w = w \<and>
         line \<notin> set (unexpired now d ls) \<and>
         (length t < MAX_TOPIC_LEN \<and> files w (log_path t) = Some content \<and>
          can_write w (tmp_path t) \<and> can_rename w (tmp_path t) \<longrightarrow>
            sent (send_persisted_messages sock t PERSIST_TIMED d now w) =
              sent w @ map (\<lambda>l. (sock, entry_message l))
                         (unexpired now d (filter (\<lambda>l. \<not> no_leading_integer l) (read_lines content))) \<and>
            files (send_persisted_messages sock t PERSIST_TIMED d now w) (log_path t) =
              Some (concat (map requeued
                         (unexpired now d (filter (\<lambda>l. \<not> no_leading_integer l) (read_lines content))))))"
proof -
  have z: "entry_time line = 0"
    using assms(1) by (rule no_leading_integer_time)
  have e: "\<not> still_valid now d (entry_time line)"
    unfolding z using assms(2) by (rule expired_at_zero)
  have r: "replay_line sock PERSIST_TIMED d now tmp line w = w"
    using e by (simp add: replay_line_timed)
  have u: "line \<notin> set (unexpired now d ls)"
    using e by (simp add: unexpired_def)
  have f: "sent (send_persisted_messages sock t PERSIST_TIMED d now w) =
              sent w @ map (\<lambda>l. (sock, entry_message l))
                         (unexpired now d (filter (\<lambda>l. \<not> no_leading_integer l) (read_lines content))) \<and>
            files (send_persisted_messages sock t PERSIST_TIMED d now w) (log_path t) =
              Some (concat (map requeued
                         (unexpired now d (filter (\<lambda>l. \<not> no_leading_integer l) (read_lines content)))))"
    if "length t < MAX_TOPIC_LEN" "files w (log_path t) = Some content"
       "can_write w (tmp_path t)" "can_rename w (tmp_path t)"
    using timed_replay [OF that, of sock d now] paths_differ [OF that(1)]
      unexpired_skips [OF assms(2), of "read_lines content"]
    by simp
  show ?thesis
    using z e r u f by blast
qed

definition mixed_world :: world where
  "mixed_world = (init_world 3)
     \<lparr>files := [''logs/weather.log'' \<mapsto> ''hello\<newline>1699999990 fresh\<newline>'']\<rparr>"

lemma hello_has_no_integer: "no_leading_integer ''hello\<newline>''"
  by (simp add: no_leading_integer_def cstr_def NUL_def isspace_def isdigit_def)

theorem unparsed_timestamp_is_zero_witness:
  "entry_time ''hello\<newline>'' = 0 \<and>
   sent (send_persisted_messages 9 ''weather'' PERSIST_TIMED 60 1700000000 mixed_world) =
     [(9, ''fresh\<newline>'')] \<and>
   files (send_persisted_messages 9 ''weather'' PERSIST_TIMED 60 1700000000 mixed_world)
     ''logs/weather.log'' = Some ''1699999990 fresh\<newline>''"
proof -
  have now: "sint (60 :: c_int) < sint (1700000000 :: time_t)"
    by simp
  have pre: "length ''weather'' < MAX_TOPIC_LEN \<and>
    files mixed_world (log_path ''weather'') = Some ''hello\<newline>1699999990 fresh\<newline>'' \<and>
    can_write mixed_world (tmp_path ''weather'') \<and> can_rename mixed_world (tmp_path ''weather'')"
    by (simp add: MAX_TOPIC_LEN_def mixed_world_def init_world_def log_path_weather)
  have "read_lines (concat [''hello\<newline>'', ''1699999990 fresh\<newline>'']) =
          [''hello\<newline>'', ''1699999990 fresh\<newline>'']"
    by (rule read_lines_of_lines) (simp add: newline_def BUFFER_SIZE_def)
  then have lines: "read_lines ''hello\<newline>1699999990 fresh\<newline>'' =
          [''hello\<newline>'', ''1699999990 fresh\<newline>'']"
    by simp
  have digits: "\<not> no_leading_integer ''1699999990 fresh\<newline>''"
    by (simp add: no_leading_integer_def cstr_def NUL_def isspace_def isdigit_def)
  have kept: "unexpired 1700000000 60 [''1699999990 fresh\<newline>''] = [''1699999990 fresh\<newline>'']"
    by (simp add: unexpired_def entry_time_def parse_fresh still_valid_def)
  have rq: "requeued ''1699999990 fresh\<newline>'' = ''1699999990 fresh\<newline>''"
    by (simp add: requeued_def entry_time_def entry_message_def parse_fresh show_fresh)
  note zero = unparsed_timestamp_is_zero [OF hello_has_no_integer now,
      of 9 "tmp_path ''weather''" mixed_world "[]" "''weather''" "''hello\<newline>1699999990 fresh\<newline>''"]
  from zero [THEN conjunct1]
    zero [THEN conjunct2, THEN conjunct2, THEN conjunct2, THEN conjunct2, THEN mp, OF pre]
  show ?thesis
    by (simp add: lines hello_has_no_integer digits kept rq log_path_weather entry_message_def
        parse_fresh mixed_world_def init_world_def)
qed

subsection \<open>Logs whose lines fit the line buffer\<close>

text \<open>
  A whole line: not empty, at most \<^verbatim>\<open>BUFFER_SIZE - 1\<close> bytes, one newline, at its end.
  The last piece of a file may lack the newline.
\<close>

definition is_line :: "string \<Rightarrow> bool" where
  "is_line l = (l \<noteq> [] \<and> last l = newline \<and> newline \<notin> set (butlast l) \<and> length l \<le> BUFFER_SIZE - 1)"

definition is_last_piece :: "string \<Rightarrow> bool" where
  "is_last_piece l = (l \<noteq> [] \<and> newline \<notin> set (butlast l) \<and> length l \<le> BUFFER_SIZE - 1)"

fun lines_ok :: "string list \<Rightarrow> bool" where
  "lines_ok [] = True"
| "lines_ok [x] = is_last_piece x"
| "lines_ok (l # m # ls) = (is_line l \<and> lines_ok (m # ls))"

lemma is_line_last_piece: "is_line l \<Longrightarrow> is_last_piece l"
  by (simp add: is_line_def is_last_piece_def)

lemma lines_ok_Cons: "is_line l \<Longrightarrow> lines_ok ls \<Longrightarrow> lines_ok (l # ls)"
  by (cases ls) (simp_all add: is_line_last_piece)

lemma lines_ok_tl: "lines_ok (l # ls) \<Longrightarrow> lines_ok ls"
  by (cases ls) simp_all

lemma lines_ok_hd: "lines_ok (l # ls) \<Longrightarrow> is_last_piece l"
  by (cases ls) (simp_all add: is_line_last_piece)

lemma lines_ok_hd_line: "lines_ok (l # ls) \<Longrightarrow> ls \<noteq> [] \<Longrightarrow> is_line l"
  by (cases ls) simp_all

lemma lines_ok_filter: "lines_ok ls \<Longrightarrow> lines_ok (filter P ls)"
proof (induction ls rule: lines_ok.induct)
  case 1
  then show ?case by simp
next
  case (2 x)
  then show ?case by simp
next
  case (3 l m ls)
  then have "lines_ok (filter P (m # ls))" by simp
  with 3 show ?case by (simp add: lines_ok_Cons)
qed

lemma fgets_piece:
  assumes "newline \<notin> set (butlast l)" and "l \<noteq> []" and "length l \<le> n"
      and "last l = newline \<or> rest = []"
  shows "fgets n (l @ rest) = (l, rest)"
proof (cases "last l = newline")
  case True
  with assms(2) have l: "l = butlast l @ [newline]"
    by (metis append_butlast_last_id)
  have "fgets n (butlast l @ newline # rest) = (butlast l @ [newline], rest)"
    using assms(1) assms(2,3) by (intro fgets_whole_line) (simp_all add: less_le_trans [OF _ assms(3)])
  then show ?thesis
    using l by (metis append.assoc append_Cons append_Nil)
next
  case False
  with assms(4) have r: "rest = []" by simp
  from False assms(1,2) have "newline \<notin> set l"
    by (metis append_butlast_last_id set_ConsD set_append Un_iff list.set(1) empty_iff rotate1.simps(2) set_rotate1)
  then show ?thesis
    using assms(3) by (simp add: r fgets_last_line)
qed

lemma read_lines_pieces: "lines_ok ls \<Longrightarrow> read_lines (concat ls) = ls"
proof (induction ls rule: lines_ok.induct)
  case 1
  then show ?case by simp
next
  case (2 x)
  then have "fgets (BUFFER_SIZE - 1) (x @ []) = (x, [])"
    by (intro fgets_piece) (simp_all add: is_last_piece_def)
  with 2 show ?case
    by (subst read_lines.simps) (simp add: fgets_line_def is_last_piece_def)
next
  case (3 l m ls)
  then have l: "is_line l" and ih: "read_lines (concat (m # ls)) = m # ls"
    by simp_all
  have "fgets (BUFFER_SIZE - 1) (l @ concat (m # ls)) = (l, concat (m # ls))"
    using l by (intro fgets_piece) (simp_all add: is_line_def)
  with l ih show ?case
    by (subst read_lines.simps) (simp add: fgets_line_def is_line_def)
qed

text \<open>What \<^verbatim>\<open>fgets\<close> returns, and when it stops before the buffer is full.\<close>

lemma fgets_shape:
  "fgets n s = (l, r) \<Longrightarrow>
     s = l @ r \<and> length l \<le> n \<and> newline \<notin> set (butlast l) \<and>
     (length l < n \<longrightarrow> r = [] \<or> (l \<noteq> [] \<and> last l = newline))"
proof (induction n s arbitrary: l r rule: fgets.induct)
  case (1 s)
  then show ?case by simp
next
  case (2 n)
  then show ?case by simp
next
  case (3 n c s)
  show ?case
  proof (cases "c = newline")
    case True
    with 3 show ?thesis by auto
  next
    case False
    obtain l' r' where f: "fgets n s = (l', r')" by (cases "fgets n s")
    from "3.IH" [OF False f] have ih: "s = l' @ r'" "length l' \<le> n" "newline \<notin> set (butlast l')"
      "length l' < n \<longrightarrow> r' = [] \<or> (l' \<noteq> [] \<and> last l' = newline)"
      by simp_all
    from "3.prems" False f have lr: "l = c # l'" "r = r'" by simp_all
    have "newline \<notin> set (butlast (c # l'))"
      using ih(3) False by (cases l') auto
    then show ?thesis
      using ih lr by auto
  qed
qed

lemma read_lines_ok:
  "\<forall>l\<in>set (read_lines s). length l < BUFFER_SIZE - 1 \<Longrightarrow> lines_ok (read_lines s)"
proof (induction s rule: read_lines.induct)
  case (1 s)
  show ?case
  proof (cases "fgets_line s")
    case None
    then show ?thesis by (subst read_lines.simps) simp
  next
    case (Some lr)
    obtain l r where lr: "lr = (l, r)" by (cases lr)
    have rl: "read_lines s = l # read_lines r"
      by (subst read_lines.simps) (simp add: Some lr)
    from Some lr have s: "s \<noteq> []" and f: "fgets (BUFFER_SIZE - 1) s = (l, r)"
      by (auto simp: fgets_line_def split: if_splits)
    note shape = fgets_shape [OF f]
    from "1.prems" rl have len: "length l < BUFFER_SIZE - 1"
      and rest: "\<forall>l\<in>set (read_lines r). length l < BUFFER_SIZE - 1"
      by simp_all
    have ih: "lines_ok (read_lines r)"
      using "1.IH" [OF Some [unfolded lr] refl rest] .
    have ne: "l \<noteq> []"
      using shape s len by (auto simp: BUFFER_SIZE_def)
    show ?thesis
    proof (cases "r = []")
      case True
      then have "read_lines s = [l]"
        by (simp add: rl)
      moreover have "is_last_piece l"
        using shape ne len by (simp add: is_last_piece_def)
      ultimately show ?thesis
        by simp
    next
      case False
      with shape len have "is_line l"
        by (auto simp: is_line_def)
      then show ?thesis
        unfolding rl using ih by (rule lines_ok_Cons)
    qed
  qed
qed

subsection \<open>A requeued entry is no longer than its line plus two bytes\<close>

lemma digit_val_le: "isdigit c \<Longrightarrow> digit_val c \<le> 9"
  unfolding isdigit_def digit_val_def by arith

lemma digits_val_less: "\<forall>c\<in>set ds. isdigit c \<Longrightarrow> digits_val ds < 10 ^ length ds"
proof (induction ds rule: rev_induct)
  case Nil
  then show ?case by (simp add: digits_val_def)
next
  case (snoc c ds)
  then have "digits_val ds < 10 ^ length ds" and "digit_val c \<le> 9"
    by (simp_all add: digit_val_le)
  then show ?case
    by (simp add: digits_val_snoc)
qed

lemma length_show_nat: "n < 10 ^ k \<Longrightarrow> 0 < k \<Longrightarrow> length (show_nat n) \<le> k"
proof (induction n arbitrary: k rule: show_nat.induct)
  case (1 n)
  show ?case
  proof (cases "n < 10")
    case True
    with "1.prems" show ?thesis
      by (subst show_nat.simps) simp
  next
    case False
    obtain j where k: "k = Suc j" using "1.prems"(2) by (cases k) auto
    from False "1.prems"(1) k have j: "0 < j"
      by (cases j) auto
    from "1.prems"(1) k have "n div 10 < 10 ^ j"
      by (simp add: less_mult_imp_div_less mult.commute)
    from "1.IH" [OF False this j] False k show ?thesis
      by (subst show_nat.simps) simp
  qed
qed

lemma length_show_nat_digits:
  assumes "ds \<noteq> []" and "\<forall>c\<in>set ds. isdigit c" and "n \<le> digits_val ds"
  shows "length (show_nat n) \<le> length ds"
proof -
  have "n < 10 ^ length ds"
    using digits_val_less [OF assms(2)] assms(3) by simp
  then show ?thesis
    using assms(1) by (intro length_show_nat) simp_all
qed

lemma sint_long: "LONG_MIN \<le> r \<Longrightarrow> r \<le> LONG_MAX \<Longrightarrow> sint (word_of_int r :: time_t) = r"
  by (simp add: sint_sbintrunc' signed_take_bit_int_eq_self LONG_MIN_def LONG_MAX_def)

lemma show_long_zero: "show_long 0 = ''0''"
  by (simp add: show_long_def show_nat.simps digit_chars)

text \<open>The digits \<^verbatim>\<open>strtol\<close> has read are at least as many as the digits \<^verbatim>\<open>%ld\<close> prints.\<close>

lemma length_show_long_strtol:
  "length (show_long (fst (strtol s))) + length (snd (strtol s)) \<le> length s + 1"
proof -
  define s1 where "s1 = dropWhile isspace s"
  define sign where "sign = (s1 \<noteq> [] \<and> (hd s1 = CHR ''-'' \<or> hd s1 = CHR ''+''))"
  define neg where "neg = (s1 \<noteq> [] \<and> hd s1 = CHR ''-'')"
  define s2 where "s2 = (if sign then tl s1 else s1)"
  define ds where "ds = takeWhile isdigit s2"
  define rest where "rest = dropWhile isdigit s2"
  have st: "strtol s = (if ds = [] then (0, s)
              else (word_of_int (if neg then max LONG_MIN (- int (digits_val ds))
                                 else min LONG_MAX (int (digits_val ds))), rest))"
    by (simp add: strtol_def Let_def s1_def sign_def neg_def s2_def ds_def rest_def)
  have l1: "length s1 \<le> length s"
    unfolding s1_def by (rule length_dropWhile_le)
  have l2: "length s1 = (if sign then 1 else 0) + length s2"
    by (cases s1) (auto simp: s2_def sign_def)
  have "ds @ rest = s2"
    by (simp add: ds_def rest_def)
  then have l3: "length s2 = length ds + length rest"
    by (metis length_append)
  have dg: "\<forall>c\<in>set ds. isdigit c"
    unfolding ds_def by (auto dest: set_takeWhileD)
  show ?thesis
  proof (cases "ds = []")
    case True
    then show ?thesis by (simp add: st show_long_zero)
  next
    case False
    let ?v = "int (digits_val ds)"
    show ?thesis
    proof (cases neg)
      case True
      then have sg: sign by (simp add: neg_def sign_def)
      let ?r = "max LONG_MIN (- ?v)"
      have r: "sint (word_of_int ?r :: time_t) = ?r"
        by (rule sint_long) (simp_all add: LONG_MIN_def LONG_MAX_def)
      have "length (show_long (word_of_int ?r)) \<le> 1 + length ds"
      proof (cases "?r < 0")
        case neg': True
        have "nat (- ?r) \<le> digits_val ds" by simp
        from length_show_nat_digits [OF False dg this] neg' show ?thesis
          by (simp add: show_long_def r)
      next
        case nonneg: False
        then have "?r = 0" by (simp add: max_def LONG_MIN_def split: if_splits)
        then show ?thesis
          using False by (simp add: show_long_zero Suc_leI)
      qed
      with True False sg l1 l2 l3 show ?thesis
        by (simp add: st)
    next
      case nn: False
      let ?r = "min LONG_MAX ?v"
      have r: "sint (word_of_int ?r :: time_t) = ?r"
        by (rule sint_long) (simp_all add: LONG_MIN_def LONG_MAX_def)
      have r0: "\<not> ?r < 0" by (simp add: LONG_MAX_def)
      have "nat ?r \<le> digits_val ds" by simp
      from length_show_nat_digits [OF False dg this] have "length (show_long (word_of_int ?r)) \<le> length ds"
        unfolding show_long_def r using r0 by simp
      with nn False l1 l2 l3 show ?thesis
        by (simp add: st)
    qed
  qed
qed

lemma length_requeued: "length (requeued l) \<le> length l + 2"
proof -
  obtain v e where p: "strtol (cstr l) = (v, e)" by (cases "strtol (cstr l)")
  have "length (show_long v) + length e \<le> length (cstr l) + 1"
    using length_show_long_strtol [of "cstr l"] by (simp add: p)
  moreover have "length (cstr l) \<le> length l"
    unfolding cstr_def by (rule length_takeWhile_le)
  moreover have "length (if e \<noteq> [] \<and> hd e = CHR '' '' then tl e else e) \<le> length e"
    by simp
  ultimately show ?thesis
    by (simp add: requeued_def entry_time_def entry_message_def parse_entry_def p)
qed

subsection \<open>Requeueing keeps the shape of a line\<close>

lemma strtol_suffix: "suffix (snd (strtol s)) s"
proof -
  have a: "suffix (dropWhile isdigit (tl (dropWhile isspace s))) s"
    by (meson suffix_dropWhile suffix_tl suffix_order.trans)
  have b: "suffix (dropWhile isdigit (dropWhile isspace s)) s"
    by (meson suffix_dropWhile suffix_order.trans)
  show ?thesis
    using a b by (simp add: strtol_def Let_def)
qed

lemma suffix_last: "suffix a b \<Longrightarrow> a \<noteq> [] \<Longrightarrow> last a = last b"
  by (auto simp: suffix_def)

lemma suffix_butlast_set: "suffix a b \<Longrightarrow> set (butlast a) \<subseteq> set (butlast b)"
  by (cases "a = []") (auto simp: suffix_def butlast_append)

lemma strtol_rest_nonempty:
  assumes "s \<noteq> []" and "\<not> isdigit (last s)"
  shows "snd (strtol s) \<noteq> []"
proof -
  define s1 where "s1 = dropWhile isspace s"
  define s2 where "s2 = (if s1 \<noteq> [] \<and> (hd s1 = CHR ''-'' \<or> hd s1 = CHR ''+'') then tl s1 else s1)"
  have st: "snd (strtol s) = (if takeWhile isdigit s2 = [] then s else dropWhile isdigit s2)"
    by (simp add: strtol_def Let_def s1_def s2_def)
  have a: "suffix s1 s"
    unfolding s1_def by (rule suffix_dropWhile)
  have "suffix (tl s1) s1"
    by simp
  then have "suffix (tl s1) s"
    using a by (rule suffix_order.trans)
  with a have suf: "suffix s2 s"
    unfolding s2_def by simp
  show ?thesis
  proof (cases "takeWhile isdigit s2 = []")
    case True
    then show ?thesis using assms(1) by (simp add: st)
  next
    case False
    then have ne: "s2 \<noteq> []" by auto
    with suf have "last s2 = last s" by (rule suffix_last)
    with assms(2) ne have "\<not> (\<forall>c\<in>set s2. isdigit c)"
      using last_in_set by metis
    then show ?thesis
      using False by (simp add: st)
  qed
qed

lemma entry_message_suffix: "suffix (entry_message l) (cstr l)"
proof -
  obtain v e where p: "strtol (cstr l) = (v, e)" by (cases "strtol (cstr l)")
  with strtol_suffix [of "cstr l"] have e: "suffix e (cstr l)" by simp
  have "suffix (tl e) e" by simp
  then have "suffix (tl e) (cstr l)"
    using e by (rule suffix_order.trans)
  with e show ?thesis
    by (simp add: entry_message_def parse_entry_def p)
qed

lemma not_isdigit_newline: "\<not> isdigit newline"
  by (simp add: isdigit_def newline_def)

lemma entry_message_of_line:
  assumes "NUL \<notin> set l" and "l \<noteq> []" and "last l = newline"
  shows "entry_message l \<noteq> [] \<and> last (entry_message l) = newline"
proof -
  have c: "cstr l = l" using assms(1) by (rule cstr_id)
  obtain v e where p: "strtol l = (v, e)" by (cases "strtol l")
  have ne: "e \<noteq> []"
    using strtol_rest_nonempty [of l] assms(2,3) not_isdigit_newline by (simp add: p)
  have "suffix e l" using strtol_suffix [of l] by (simp add: p)
  with ne have le: "last e = newline"
    using suffix_last assms(3) by metis
  have m: "entry_message l = (if hd e = CHR '' '' then tl e else e)"
    using ne by (simp add: entry_message_def parse_entry_def c p)
  show ?thesis
  proof (cases "hd e = CHR '' ''")
    case False
    with ne le show ?thesis by (simp add: m)
  next
    case True
    then obtain e' where e: "e = CHR '' '' # e'" using ne by (cases e) auto
    with le have "e' \<noteq> []" by (auto simp: newline_def)
    with e le True show ?thesis by (simp add: m)
  qed
qed

lemma show_long_no_newline: "newline \<notin> set (show_long x)"
proof -
  have "newline \<notin> set (show_nat n)" for n
    using show_nat_digits [of n] not_isdigit_newline by blast
  then show ?thesis
    by (simp add: show_long_def newline_def)
qed

lemma requeued_butlast:
  assumes "NUL \<notin> set l" and "newline \<notin> set (butlast l)"
  shows "newline \<notin> set (butlast (requeued l))"
proof -
  have "suffix (entry_message l) l"
    using entry_message_suffix [of l] cstr_id [OF assms(1)] by simp
  then have m: "newline \<notin> set (butlast (entry_message l))"
    using suffix_butlast_set assms(2) by blast
  show ?thesis
  proof (cases "entry_message l = []")
    case True
    then show ?thesis
      using show_long_no_newline by (simp add: requeued_def butlast_append)
  next
    case False
    then show ?thesis
      using show_long_no_newline m by (simp add: requeued_def butlast_append newline_def)
  qed
qed

lemma is_line_requeued:
  assumes "NUL \<notin> set l" and "is_line l" and "length l + 2 \<le> BUFFER_SIZE - 1"
  shows "is_line (requeued l)"
proof -
  from assms(2) have l: "l \<noteq> []" "last l = newline" "newline \<notin> set (butlast l)"
    by (simp_all add: is_line_def)
  note m = entry_message_of_line [OF assms(1) l(1,2)]
  have "last (requeued l) = newline"
    using m by (simp add: requeued_def)
  moreover have "requeued l \<noteq> []"
    by (simp add: requeued_def)
  moreover have "length (requeued l) \<le> BUFFER_SIZE - 1"
    using length_requeued [of l] assms(3) by simp
  ultimately show ?thesis
    using requeued_butlast [OF assms(1) l(3)] by (simp add: is_line_def)
qed

lemma is_last_piece_requeued:
  assumes "NUL \<notin> set l" and "is_last_piece l" and "length l + 2 \<le> BUFFER_SIZE - 1"
  shows "is_last_piece (requeued l)"
proof -
  from assms(2) have l: "newline \<notin> set (butlast l)"
    by (simp add: is_last_piece_def)
  have "requeued l \<noteq> []"
    by (simp add: requeued_def)
  moreover have "length (requeued l) \<le> BUFFER_SIZE - 1"
    using length_requeued [of l] assms(3) by simp
  ultimately show ?thesis
    using requeued_butlast [OF assms(1) l] by (simp add: is_last_piece_def)
qed

lemma lines_ok_requeued:
  "lines_ok ls \<Longrightarrow> \<forall>l\<in>set ls. NUL \<notin> set l \<and> length l + 2 \<le> BUFFER_SIZE - 1 \<Longrightarrow>
   lines_ok (map requeued ls)"
proof (induction ls rule: lines_ok.induct)
  case 1
  then show ?case by simp
next
  case (2 x)
  then show ?case by (simp add: is_last_piece_requeued)
next
  case (3 l m ls)
  then have "is_line (requeued l)" and "lines_ok (map requeued (m # ls))"
    by (simp_all add: is_line_requeued)
  then show ?case by simp
qed

lemma read_lines_set: "l \<in> set (read_lines s) \<Longrightarrow> set l \<subseteq> set s"
proof (induction s rule: read_lines.induct)
  case (1 s)
  show ?case
  proof (cases "fgets_line s")
    case None
    with "1.prems" show ?thesis
      by (subst (asm) read_lines.simps) simp
  next
    case (Some lr)
    obtain a r where lr: "lr = (a, r)" by (cases lr)
    have rl: "read_lines s = a # read_lines r"
      by (subst read_lines.simps) (simp add: Some lr)
    from Some lr have f: "fgets (BUFFER_SIZE - 1) s = (a, r)"
      by (auto simp: fgets_line_def split: if_splits)
    from fgets_shape [OF f] have s: "s = a @ r" by simp
    from "1.prems" rl have "l = a \<or> l \<in> set (read_lines r)" by simp
    then show ?thesis
    proof
      assume "l = a"
      with s show ?thesis by (metis Un_upper1 set_append)
    next
      assume "l \<in> set (read_lines r)"
      from "1.IH" [OF Some [unfolded lr] refl this] s show ?thesis
        by (metis Un_iff set_append subset_iff)
    qed
  qed
qed

subsection \<open>Replaying twice\<close>

lemma timed_replay_sent:
  assumes "files w (log_path t) = Some content" and "can_write w (tmp_path t)"
  shows "sent (send_persisted_messages sock t PERSIST_TIMED d now w) =
           sent w @ map (\<lambda>l. (sock, entry_message l)) (unexpired now d (read_lines content))"
  using assms
  by (simp add: send_persisted_messages_def Let_def replay_loop_fold fold_replay_timed_sent)

lemma timed_replay_not_renamed:
  assumes "length t < MAX_TOPIC_LEN" and "files w (log_path t) = Some content"
      and "can_write w (tmp_path t)" and "\<not> can_rename w (tmp_path t)"
  shows "files (send_persisted_messages sock t PERSIST_TIMED d now w) (log_path t) = Some content"
proof -
  let ?w3 = "w\<lparr>opened := opened w @ [log_path t, tmp_path t], files := (files w)(tmp_path t \<mapsto> [])\<rparr>"
  have f: "files ?w3 (tmp_path t) = Some []" by simp
  show ?thesis
    using assms(2-4) paths_differ [OF assms(1)]
    by (simp add: send_persisted_messages_def Let_def replay_loop_fold fold_replay_timed_files [OF f])
qed

lemma timed_replay_not_writable:
  assumes "files w (log_path t) = Some content" and "\<not> can_write w (tmp_path t)"
  shows "sent (send_persisted_messages sock t PERSIST_TIMED d now w) = sent w"
    and "files (send_persisted_messages sock t PERSIST_TIMED d now w) = files w"
  using assms by (simp_all add: send_persisted_messages_def Let_def)

lemma replay_absent:
  assumes "files w (log_path t) = None"
  shows "sent (send_persisted_messages sock t p_mode d now w) = sent w"
    and "files (send_persisted_messages sock t p_mode d now w) = files w"
  using assms by (simp_all add: send_persisted_messages_def Let_def)

lemma entry_of_requeued:
  "entry_time (requeued l) = entry_time l" "entry_message (requeued l) = entry_message l"
  "requeued (requeued l) = requeued l"
proof -
  show a: "entry_time (requeued l) = entry_time l"
    by (simp add: entry_time_def [of "requeued l"] requeued_parses_back)
  show b: "entry_message (requeued l) = entry_message l"
    by (simp add: entry_message_def [of "requeued l"] requeued_parses_back)
  show "requeued (requeued l) = requeued l"
    by (simp add: requeued_def [of "requeued l"] a b) (simp add: requeued_def)
qed

lemma unexpired_requeued:
  "unexpired now d (map requeued (unexpired now d ls)) = map requeued (unexpired now d ls)"
  by (simp add: unexpired_def filter_map o_def entry_of_requeued)

text \<open>The log a timed replay leaves is read back as the entries it kept.\<close>

lemma rewritten_log_lines:
  assumes "NUL \<notin> set content"
      and "\<forall>l\<in>set (read_lines content). length l + 2 \<le> BUFFER_SIZE - 1"
  shows "read_lines (concat (map requeued (unexpired now d (read_lines content)))) =
           map requeued (unexpired now d (read_lines content))"
proof -
  have "\<forall>l\<in>set (read_lines content). length l < BUFFER_SIZE - 1"
    using assms(2) by auto
  then have "lines_ok (read_lines content)"
    by (rule read_lines_ok)
  then have ok: "lines_ok (unexpired now d (read_lines content))"
    unfolding unexpired_def by (rule lines_ok_filter)
  have "\<forall>l\<in>set (unexpired now d (read_lines content)). NUL \<notin> set l \<and> length l + 2 \<le> BUFFER_SIZE - 1"
    using assms read_lines_set [of _ content] by (auto simp: unexpired_def)
  with ok have "lines_ok (map requeued (unexpired now d (read_lines content)))"
    by (rule lines_ok_requeued)
  then show ?thesis
    by (rule read_lines_pieces)
qed

lemma timed_replay_twice:
  assumes "length t < MAX_TOPIC_LEN" and "files w (log_path t) = Some content"
      and "NUL \<notin> set content"
      and "\<forall>l\<in>set (read_lines content). length l + 2 \<le> BUFFER_SIZE - 1"
      and "w1 = send_persisted_messages sock t PERSIST_TIMED d now w"
      and "w2 = send_persisted_messages sock t PERSIST_TIMED d now w1"
  shows "\<exists>ds. sent w1 = sent w @ ds \<and> sent w2 = sent w1 @ ds"
    and "files w2 (log_path t) = files w1 (log_path t)"
proof -
  let ?kept = "unexpired now d (read_lines content)"
  let ?ds = "map (\<lambda>l. (sock, entry_message l)) ?kept"
  let ?new = "concat (map requeued ?kept)"
  have env: "can_write w1 = can_write w" "can_rename w1 = can_rename w"
    by (simp_all add: assms(5))
  have "(\<exists>ds. sent w1 = sent w @ ds \<and> sent w2 = sent w1 @ ds) \<and>
        files w2 (log_path t) = files w1 (log_path t)"
  proof (cases "can_write w (tmp_path t)")
    case False
    then have 1: "sent w1 = sent w" "files w1 = files w"
      unfolding assms(5) using assms(2) by (simp_all add: timed_replay_not_writable)
    from False 1 assms(2) env have "sent w2 = sent w1" "files w2 = files w1"
      unfolding assms(6) by (simp_all add: timed_replay_not_writable)
    with 1 show ?thesis by simp
  next
    case cw: True
    have s1: "sent w1 = sent w @ ?ds"
      unfolding assms(5) using assms(2) cw by (rule timed_replay_sent)
    show ?thesis
    proof (cases "can_rename w (tmp_path t)")
      case False
      have f1: "files w1 (log_path t) = Some content"
        unfolding assms(5) using assms(1,2) cw False by (rule timed_replay_not_renamed)
      have s2: "sent w2 = sent w1 @ ?ds"
        unfolding assms(6) using f1 cw env by (simp add: timed_replay_sent)
      have "files w2 (log_path t) = Some content"
        unfolding assms(6) using assms(1) f1 cw False env by (simp add: timed_replay_not_renamed)
      with s1 s2 f1 show ?thesis by simp
    next
      case cr: True
      have "files w1 = (files w)(log_path t \<mapsto> ?new, tmp_path t := None)"
        unfolding assms(5) using assms(1,2) cw cr by (rule timed_replay(2))
      then have f1: "files w1 (log_path t) = Some ?new"
        using paths_differ [OF assms(1)] by simp
      have lines: "read_lines ?new = map requeued ?kept"
        using assms(3,4) by (rule rewritten_log_lines)
      have cw1: "can_write w1 (tmp_path t)" and cr1: "can_rename w1 (tmp_path t)"
        using cw cr env by simp_all
      have "sent w2 = sent w1 @ map (\<lambda>l. (sock, entry_message l)) (unexpired now d (read_lines ?new))"
        unfolding assms(6) using f1 cw1 by (rule timed_replay_sent)
      then have s2: "sent w2 = sent w1 @ ?ds"
        by (simp add: lines unexpired_requeued o_def entry_of_requeued)
      have "files w2 = (files w1)(log_path t \<mapsto> concat (map requeued (unexpired now d (read_lines ?new))),
                                  tmp_path t := None)"
        unfolding assms(6) using assms(1) f1 cw1 cr1 by (rule timed_replay(2))
      then have "files w2 (log_path t) = Some ?new"
        using paths_differ [OF assms(1)]
        by (simp add: lines unexpired_requeued o_def entry_of_requeued)
      with s1 s2 f1 show ?thesis by simp
    qed
  qed
  then show "\<exists>ds. sent w1 = sent w @ ds \<and> sent w2 = sent w1 @ ds"
    and "files w2 (log_path t) = files w1 (log_path t)"
    by simp_all
qed

text \<open>
  C7, amended. Replaying a topic's log twice in a row, with the same mode, duration and
  clock and nothing published in between, writes the same messages in the same order
  both times, and the second replay leaves the log as the first left it. Under mode all
  (and none) this holds for any log. Under mode timed it holds for a log with no NUL byte
  whose lines as \<^verbatim>\<open>fgets\<close> reads them have at most \<^verbatim>\<open>BUFFER_SIZE - 3\<close> bytes, so that every
  entry is a whole line and still fits the line buffer after it has been requeued.
\<close>

theorem replay_twice_delivers_the_same:
  assumes "length t < MAX_TOPIC_LEN"
      and "p_mode = PERSIST_TIMED \<longrightarrow>
             (\<forall>content. files w (log_path t) = Some content \<longrightarrow>
                NUL \<notin> set content \<and>
                (\<forall>l\<in>set (read_lines content). length l + 2 \<le> BUFFER_SIZE - 1))"
      and "w1 = send_persisted_messages sock t p_mode d now w"
      and "w2 = send_persisted_messages sock t p_mode d now w1"
  shows "(\<exists>ds. sent w1 = sent w @ ds \<and> sent w2 = sent w1 @ ds) \<and>
         files w2 (log_path t) = files w1 (log_path t)"
proof (cases "files w (log_path t)")
  case None
  then have 1: "sent w1 = sent w" "files w1 = files w"
    unfolding assms(3) by (simp_all add: replay_absent)
  with None have "sent w2 = sent w1" "files w2 = files w1"
    unfolding assms(4) by (simp_all add: replay_absent)
  with 1 show ?thesis by simp
next
  case (Some content)
  show ?thesis
  proof (cases p_mode)
    case PERSIST_NONE
    then show ?thesis
      by (simp add: assms(3,4) send_persisted_messages_none)
  next
    case PERSIST_ALL
    have 1: "sent w1 = sent w @ map (\<lambda>l. (sock, cstr l)) (read_lines content)" "files w1 = files w"
      unfolding assms(3) PERSIST_ALL using Some by (simp_all add: all_replay)
    with Some have "sent w2 = sent w1 @ map (\<lambda>l. (sock, cstr l)) (read_lines content)"
      "files w2 = files w1"
      unfolding assms(4) PERSIST_ALL by (simp_all add: all_replay)
    with 1 show ?thesis by simp
  next
    case PERSIST_TIMED
    with assms(2) Some have c: "NUL \<notin> set content"
      "\<forall>l\<in>set (read_lines content). length l + 2 \<le> BUFFER_SIZE - 1"
      by simp_all
    from timed_replay_twice [OF assms(1) Some c assms(3,4) [unfolded PERSIST_TIMED]]
    show ?thesis by simp
  qed
qed

lemma tmp_path_weather: "tmp_path ''weather'' = ''logs/weather.log.tmp''"
  by (simp add: tmp_path_def LOG_DIR_def)

lemma fresh_stale_lines:
  "read_lines ''1699999990 fresh\<newline>1600000000 stale\<newline>'' =
     [''1699999990 fresh\<newline>'', ''1600000000 stale\<newline>'']"
proof -
  have "read_lines (concat [''1699999990 fresh\<newline>'', ''1600000000 stale\<newline>'']) =
          [''1699999990 fresh\<newline>'', ''1600000000 stale\<newline>'']"
    by (rule read_lines_of_lines) (simp add: newline_def BUFFER_SIZE_def)
  then show ?thesis by simp
qed

theorem replay_twice_delivers_the_same_witness:
  "sent (send_persisted_messages 9 ''weather'' PERSIST_TIMED 60 1700000000
           (send_persisted_messages 9 ''weather'' PERSIST_TIMED 60 1700000000 timed_world)) =
     [(9, ''fresh\<newline>''), (9, ''fresh\<newline>'')] \<and>
   files (send_persisted_messages 9 ''weather'' PERSIST_TIMED 60 1700000000
           (send_persisted_messages 9 ''weather'' PERSIST_TIMED 60 1700000000 timed_world))
     ''logs/weather.log'' = Some ''1699999990 fresh\<newline>''"
proof -
  let ?w1 = "send_persisted_messages 9 ''weather'' PERSIST_TIMED 60 1700000000 timed_world"
  let ?w2 = "send_persisted_messages 9 ''weather'' PERSIST_TIMED 60 1700000000 ?w1"
  have len: "length ''weather'' < MAX_TOPIC_LEN"
    by (simp add: MAX_TOPIC_LEN_def)
  have f: "files timed_world (log_path ''weather'') =
             Some ''1699999990 fresh\<newline>1600000000 stale\<newline>''"
    and cw: "can_write timed_world (tmp_path ''weather'')"
    and cr: "can_rename timed_world (tmp_path ''weather'')"
    and s0: "sent timed_world = []"
    by (simp_all add: timed_world_def init_world_def log_path_weather)
  have short: "PERSIST_TIMED = PERSIST_TIMED \<longrightarrow>
             (\<forall>content. files timed_world (log_path ''weather'') = Some content \<longrightarrow>
                NUL \<notin> set content \<and>
                (\<forall>l\<in>set (read_lines content). length l + 2 \<le> BUFFER_SIZE - 1))"
    by (auto simp add: f fresh_stale_lines NUL_def BUFFER_SIZE_def)
  have kept: "unexpired 1700000000 60 [''1699999990 fresh\<newline>'', ''1600000000 stale\<newline>''] =
          [''1699999990 fresh\<newline>'']"
    by (simp add: unexpired_def entry_time_def parse_fresh parse_stale still_valid_def)
  have rq: "requeued ''1699999990 fresh\<newline>'' = ''1699999990 fresh\<newline>''"
    by (simp add: requeued_def entry_time_def entry_message_def parse_fresh show_fresh)
  have s1: "sent ?w1 = [(9, ''fresh\<newline>'')]"
    using timed_replay(1) [OF len f cw cr, of 9 60 1700000000]
    by (simp add: s0 fresh_stale_lines kept entry_message_def parse_fresh)
  have f1: "files ?w1 ''logs/weather.log'' = Some ''1699999990 fresh\<newline>''"
    using timed_replay(2) [OF len f cw cr, of 9 60 1700000000]
    by (simp add: fresh_stale_lines kept rq log_path_weather tmp_path_weather)
  from replay_twice_delivers_the_same [OF len short refl refl, of 9 60 1700000000]
  show ?thesis
    using s0 s1 f1 by (auto simp: log_path_weather)
qed

subsection \<open>A line longer than the line buffer\<close>

lemma fgets_full:
  "newline \<notin> set l \<Longrightarrow> length l = n \<Longrightarrow> fgets n (l @ r) = (l, r)"
proof (induction l arbitrary: n)
  case Nil
  then show ?case by simp
next
  case (Cons c l)
  then obtain k where "n = Suc k" by (cases n) auto
  with Cons show ?case by auto
qed

lemma read_lines_full:
  assumes "newline \<notin> set l" and "length l = BUFFER_SIZE - 1"
  shows "read_lines (l @ r) = l # read_lines r"
proof -
  have "l \<noteq> []" using assms(2) by (auto simp: BUFFER_SIZE_def)
  then show ?thesis
    using fgets_full [OF assms, of r]
    by (subst read_lines.simps) (simp add: fgets_line_def)
qed

text \<open>
  A log with one line of 1036 bytes: the timestamp \<^verbatim>\<open>01700000000\<close> (with a leading zero), a
  space, 1011 letters, and then \<^verbatim>\<open>1700000000 b\<close> and a newline.
\<close>

definition long_world :: world where
  "long_world = (init_world 3)
     \<lparr>files := [''logs/weather.log'' \<mapsto>
         ''01700000000 '' @ replicate 1011 CHR ''a'' @ ''1700000000 b\<newline>'']\<rparr>"

lemma show_now: "show_long 1700000000 = ''1700000000''"
  by (simp add: show_long_def show_nat.simps digit_chars)

lemma parse_long_first:
  "parse_entry (''01700000000 '' @ replicate 1011 CHR ''a'') = (1700000000, replicate 1011 CHR ''a'')"
proof -
  have "NUL \<notin> set (''01700000000 '' @ replicate 1011 CHR ''a'')"
    by (simp add: NUL_def)
  then have c: "cstr (''01700000000 '' @ replicate 1011 CHR ''a'') = ''01700000000 '' @ replicate 1011 CHR ''a''"
    by (rule cstr_id)
  show ?thesis
    unfolding parse_entry_def c
    by (simp add: strtol_def isspace_def isdigit_def digits_val_def digit_val_def
        LONG_MAX_def LONG_MIN_def)
qed

lemma parse_long_second:
  "parse_entry ''1700000000 b\<newline>'' = (1700000000, ''b\<newline>'')"
  by (simp add: parse_entry_def cstr_def NUL_def strtol_def isspace_def isdigit_def
      digits_val_def digit_val_def LONG_MAX_def LONG_MIN_def)

lemma parse_shifted_first:
  "parse_entry (''1700000000 '' @ replicate 1011 CHR ''a'' @ ''1'') =
     (1700000000, replicate 1011 CHR ''a'' @ ''1'')"
proof -
  have "NUL \<notin> set (''1700000000 '' @ replicate 1011 CHR ''a'' @ ''1'')"
    by (simp add: NUL_def)
  then have c: "cstr (''1700000000 '' @ replicate 1011 CHR ''a'' @ ''1'') =
      ''1700000000 '' @ replicate 1011 CHR ''a'' @ ''1''"
    by (rule cstr_id)
  show ?thesis
    unfolding parse_entry_def c
    by (simp add: strtol_def isspace_def isdigit_def digits_val_def digit_val_def
        LONG_MAX_def LONG_MIN_def)
qed

lemma parse_shifted_second:
  "parse_entry ''700000000 b\<newline>'' = (700000000, ''b\<newline>'')"
  by (simp add: parse_entry_def cstr_def NUL_def strtol_def isspace_def isdigit_def
      digits_val_def digit_val_def LONG_MAX_def LONG_MIN_def)

lemma long_log_lines:
  "read_lines ((''01700000000 '' @ replicate 1011 CHR ''a'') @ ''1700000000 b\<newline>'') =
     [''01700000000 '' @ replicate 1011 CHR ''a'', ''1700000000 b\<newline>'']"
proof -
  have "read_lines ((''01700000000 '' @ replicate 1011 CHR ''a'') @ ''1700000000 b\<newline>'') =
          (''01700000000 '' @ replicate 1011 CHR ''a'') # read_lines ''1700000000 b\<newline>''"
    by (rule read_lines_full) (simp_all add: newline_def BUFFER_SIZE_def)
  moreover have "read_lines (concat [''1700000000 b\<newline>'']) = [''1700000000 b\<newline>'']"
    by (rule read_lines_of_lines) (simp add: newline_def BUFFER_SIZE_def)
  ultimately show ?thesis by simp
qed

lemma shifted_log_lines:
  "read_lines ((''1700000000 '' @ replicate 1011 CHR ''a'' @ ''1'') @ ''700000000 b\<newline>'') =
     [''1700000000 '' @ replicate 1011 CHR ''a'' @ ''1'', ''700000000 b\<newline>'']"
proof -
  have "read_lines ((''1700000000 '' @ replicate 1011 CHR ''a'' @ ''1'') @ ''700000000 b\<newline>'') =
          (''1700000000 '' @ replicate 1011 CHR ''a'' @ ''1'') # read_lines ''700000000 b\<newline>''"
    by (rule read_lines_full) (simp_all add: newline_def BUFFER_SIZE_def)
  moreover have "read_lines (concat [''700000000 b\<newline>'']) = [''700000000 b\<newline>'']"
    by (rule read_lines_of_lines) (simp add: newline_def BUFFER_SIZE_def)
  ultimately show ?thesis by simp
qed

text \<open>
  C7 as stated fails on that log, with duration 60 at time 1700000000. The first replay
  reads the line in two pieces, sends the 1011 letters and then \<^verbatim>\<open>b\<close>, and requeues the
  first piece with its timestamp printed without the zero, one byte shorter and still
  without a newline. The second replay therefore cuts the rewritten line one byte later:
  it sends the 1011 letters followed by \<^verbatim>\<open>1\<close>, and drops the rest as an entry of
  timestamp 700000000. What is delivered the second time is not what was delivered the
  first time.
\<close>

theorem replay_twice_of_a_long_line:
  "sent (send_persisted_messages 9 ''weather'' PERSIST_TIMED 60 1700000000 long_world) =
     [(9, replicate 1011 CHR ''a''), (9, ''b\<newline>'')] \<and>
   sent (send_persisted_messages 9 ''weather'' PERSIST_TIMED 60 1700000000
           (send_persisted_messages 9 ''weather'' PERSIST_TIMED 60 1700000000 long_world)) =
     [(9, replicate 1011 CHR ''a''), (9, ''b\<newline>'')] @ [(9, replicate 1011 CHR ''a'' @ ''1'')] \<and>
   [(9, replicate 1011 CHR ''a'' @ ''1'')] \<noteq> [(9, replicate 1011 CHR ''a''), (9, ''b\<newline>'')]"
proof -
  let ?w1 = "send_persisted_messages 9 ''weather'' PERSIST_TIMED 60 1700000000 long_world"
  define c1 where "c1 = ''01700000000 '' @ replicate 1011 CHR ''a''"
  define d1 where "d1 = ''1700000000 '' @ replicate 1011 CHR ''a'' @ ''1''"
  let ?c2 = "''1700000000 b\<newline>''"
  let ?d2 = "''700000000 b\<newline>''"
  have pc1: "parse_entry c1 = (1700000000, replicate 1011 CHR ''a'')"
    unfolding c1_def by (rule parse_long_first)
  have pd1: "parse_entry d1 = (1700000000, replicate 1011 CHR ''a'' @ ''1'')"
    unfolding d1_def by (rule parse_shifted_first)
  have lc: "read_lines (c1 @ ?c2) = [c1, ?c2]"
    unfolding c1_def by (rule long_log_lines)
  have ld: "read_lines (d1 @ ?d2) = [d1, ?d2]"
    unfolding d1_def by (rule shifted_log_lines)
  have len: "length ''weather'' < MAX_TOPIC_LEN"
    by (simp add: MAX_TOPIC_LEN_def)
  have f: "files long_world (log_path ''weather'') = Some (c1 @ ?c2)"
    and cw: "can_write long_world (tmp_path ''weather'')"
    and cr: "can_rename long_world (tmp_path ''weather'')"
    and s0: "sent long_world = []"
    by (simp_all add: long_world_def init_world_def log_path_weather c1_def)
  have kept: "unexpired 1700000000 60 [c1, ?c2] = [c1, ?c2]"
    by (simp add: unexpired_def entry_time_def pc1 parse_long_second still_valid_def)
  have rq1: "requeued c1 = ''1700000000 '' @ replicate 1011 CHR ''a''"
    by (simp add: requeued_def entry_time_def entry_message_def pc1 show_now)
  have rq2: "requeued ?c2 = ?c2"
    by (simp add: requeued_def entry_time_def entry_message_def parse_long_second show_now)
  have new: "concat (map requeued [c1, ?c2]) = d1 @ ?d2"
    by (simp add: rq1 rq2 d1_def)
  have s1: "sent ?w1 = [(9, replicate 1011 CHR ''a''), (9, ''b\<newline>'')]"
    unfolding timed_replay(1) [OF len f cw cr] lc kept
    by (simp add: s0 entry_message_def pc1 parse_long_second)
  have "files ?w1 (log_path ''weather'') = Some (concat (map requeued [c1, ?c2]))"
    unfolding timed_replay(2) [OF len f cw cr] lc kept
    using paths_differ [OF len] by simp
  then have f1: "files ?w1 (log_path ''weather'') = Some (d1 @ ?d2)"
    by (simp only: new)
  have cw1: "can_write ?w1 (tmp_path ''weather'')"
    using cw by simp
  have kept2: "unexpired 1700000000 60 [d1, ?d2] = [d1]"
    by (simp add: unexpired_def entry_time_def pd1 parse_shifted_second still_valid_def)
  have s2: "sent (send_persisted_messages 9 ''weather'' PERSIST_TIMED 60 1700000000 ?w1) =
              sent ?w1 @ [(9, replicate 1011 CHR ''a'' @ ''1'')]"
    unfolding timed_replay_sent [OF f1 cw1] ld kept2
    by (simp add: entry_message_def pd1)
  show ?thesis
    using s1 s2 by simp
qed

subsection \<open>No subscriber is ever skipped for the size of the frame\<close>










subsection \<open>Timed replay, entry by entry\<close>




text \<open>
  The age of an entry as a number, \<open>now\<close> minus its timestamp, lies in the range of
  \<^verbatim>\<open>time_t\<close>: the subtraction of line 98 does not overflow. This is so whenever neither
  time is before the epoch.
\<close>

definition age :: "time_t \<Rightarrow> time_t \<Rightarrow> int" where
  "age now ts = sint now - sint ts"

definition age_in_range :: "time_t \<Rightarrow> time_t \<Rightarrow> bool" where
  "age_in_range now ts = (- (2 ^ 63) \<le> age now ts \<and> age now ts < 2 ^ 63)"

lemma age_since_epoch: "0 \<le> sint now \<Longrightarrow> 0 \<le> sint ts \<Longrightarrow> age_in_range now ts"
proof -
  assume a: "0 \<le> sint now" "0 \<le> sint ts"
  have "sint now < 2 ^ 63" "sint ts < 2 ^ 63"
    using sint_lt [of now] sint_lt [of ts] by simp_all
  with a show ?thesis
    by (simp add: age_in_range_def age_def)
qed










text \<open>The log that publishes of the messages \<open>snd e\<close> at the times \<open>fst e\<close> leave.\<close>

definition persist_entries :: "string \<Rightarrow> (time_t \<times> string) list \<Rightarrow> world \<Rightarrow> world" where
  "persist_entries t es w = fold (\<lambda>e. persist_message t (snd e) PERSIST_TIMED (fst e)) es w"



lemma persist_entries_frame [simp]:
  "sent (persist_entries t es w) = sent w"
  "can_write (persist_entries t es w) = can_write w"
  "can_rename (persist_entries t es w) = can_rename w"
  unfolding persist_entries_def by (induction es arbitrary: w) simp_all

subsection \<open>An entry longer than the line buffer\<close>


lemma tmp_path_news: "tmp_path ''news'' = ''logs/news.log.tmp''"
  by (simp add: tmp_path_def LOG_DIR_def)








subsection \<open>Entries that fit the line buffer\<close>




end
